theory Spec2Isabelle
  imports Main
begin

section \<open>Python values used by the bot\<close>

text \<open>
  A Python \<open>dict\<close> keeps its keys in insertion order: assigning to a key that is present
  keeps the key's position, assigning to a new key appends it, and \<open>del\<close> removes the
  entry. Both \<open>db.users\<close> and each user's \<open>wallets\<close> are iterated, so the order is part
  of the model: a dict is a list of key/value pairs in insertion order. A dict never
  holds a key twice; \<open>dict_ok\<close> states it.
\<close>

type_synonym ('k, 'v) dict = "('k \<times> 'v) list"

definition dict_get :: "('k, 'v) dict \<Rightarrow> 'k \<Rightarrow> 'v option" where
  "dict_get d k = map_of d k"

definition dict_keys :: "('k, 'v) dict \<Rightarrow> 'k list" where
  "dict_keys d = map fst d"

definition dict_has :: "('k, 'v) dict \<Rightarrow> 'k \<Rightarrow> bool" where
  "dict_has d k = (k \<in> set (dict_keys d))"

fun dict_set :: "'k \<Rightarrow> 'v \<Rightarrow> ('k, 'v) dict \<Rightarrow> ('k, 'v) dict" where
  "dict_set k v [] = [(k, v)]"
| "dict_set k v (p # ps) = (if fst p = k then (k, v) # ps else p # dict_set k v ps)"

definition dict_del :: "'k \<Rightarrow> ('k, 'v) dict \<Rightarrow> ('k, 'v) dict" where
  "dict_del k d = filter (\<lambda>p. fst p \<noteq> k) d"

definition dict_ok :: "('k, 'v) dict \<Rightarrow> bool" where
  "dict_ok d = distinct (dict_keys d)"

text \<open>
  \<open>str(user_id)\<close> for a Python \<open>int\<close>: the decimal digits, with a leading minus sign
  for a negative number.
\<close>

definition digit_char :: "nat \<Rightarrow> char" where
  "digit_char d = ''0123456789'' ! d"

function digits :: "nat \<Rightarrow> string" where
  "digits n = (if n < 10 then [digit_char n] else digits (n div 10) @ [digit_char (n mod 10)])"
  by pat_completeness auto
termination
  by (relation "measure id") auto

declare digits.simps [simp del]

definition str_int :: "int \<Rightarrow> string" where
  "str_int i = (if i < 0 then CHR ''-'' # digits (nat (- i)) else digits (nat i))"

text \<open>
  Three functions of Python's library are not reproduced. They are the fields of a
  record that every operation calling one of them takes as its argument \<open>py\<close>, and the
  theorems hold for every \<open>py\<close>:
  \<^item> \<open>int_of\<close> is \<open>int(s)\<close>, with \<open>None\<close> when it raises \<open>ValueError\<close>;
  \<^item> \<open>lower_of\<close> is \<open>s.lower()\<close>, which folds the letters of every alphabet;
  \<^item> \<open>time_of\<close> is \<open>datetime.fromtimestamp(ts).strftime("%H:%M:%S")\<close>, with \<open>Inl e\<close> when
    \<open>fromtimestamp\<close> raises an error of text \<open>e\<close> (a value out of the platform's range).
\<close>

record library =
  int_of :: "string \<Rightarrow> int option"
  lower_of :: "string \<Rightarrow> string"
  time_of :: "int \<Rightarrow> string + string"

text \<open>\<open>sub in s\<close> on strings: \<open>sub\<close> occurs in \<open>s\<close> as a contiguous run.\<close>

fun contains :: "string \<Rightarrow> string \<Rightarrow> bool" where
  "contains sub [] = (sub = [])"
| "contains sub (c # cs) = (take (length sub) (c # cs) = sub \<or> contains sub cs)"

section \<open>WalletDatabase\<close>

text \<open>
  Timestamps are the texts of \<open>datetime.now().isoformat()\<close>. Every operation takes the
  clock reading as its argument \<open>now\<close>; no claim depends on the value.
\<close>

type_synonym iso_time = string

record wallet =
  name :: string
  added :: iso_time
  last_tx :: "iso_time option"
  tx_count :: int

record user =
  wallets :: "(string, wallet) dict"
  created :: iso_time
  alert_count :: int

text \<open>
  The object \<open>db\<close>: the two dicts in memory, and the contents of the two JSON files
  \<open>wallets_db.json\<close> and \<open>tx_cache.json\<close> as last written by \<open>save_data\<close>.
\<close>

record database =
  users :: "(string, user) dict"
  tx_cache :: "(string, iso_time) dict"
  disk_users :: "(string, user) dict"
  disk_cache :: "(string, iso_time) dict"

definition save_data :: "database \<Rightarrow> database" where
  "save_data db = db\<lparr>disk_users := users db, disk_cache := tx_cache db\<rparr>"

definition new_user :: "iso_time \<Rightarrow> user" where
  "new_user now = \<lparr>wallets = [], created = now, alert_count = 0\<rparr>"

definition get_user :: "iso_time \<Rightarrow> database \<Rightarrow> int \<Rightarrow> database \<times> user" where
  "get_user now db user_id =
     (let uid = str_int user_id in
      case dict_get (users db) uid of
        Some u \<Rightarrow> (db, u)
      | None \<Rightarrow> (save_data (db\<lparr>users := dict_set uid (new_user now) (users db)\<rparr>), new_user now))"

text \<open>
  The second component of the results of \<open>add_wallet\<close> and \<open>remove_wallet\<close>: the message
  texts of the source, "Maximum 10 wallets reached", "This wallet is already tracked",
  "*name* is now being tracked!", "Removed *name*" and "Wallet not found".
\<close>

datatype db_message =
  MaximumReached
| AlreadyTracked
| NowTracked string
| Removed string
| WalletNotFound

definition new_wallet :: "iso_time \<Rightarrow> string \<Rightarrow> wallet" where
  "new_wallet now nm = \<lparr>name = take 20 nm, added = now, last_tx = None, tx_count = 0\<rparr>"

definition set_wallets :: "database \<Rightarrow> string \<Rightarrow> user \<Rightarrow> (string, wallet) dict \<Rightarrow> database" where
  "set_wallets db uid u ws = db\<lparr>users := dict_set uid (u\<lparr>wallets := ws\<rparr>) (users db)\<rparr>"

definition add_wallet :: "iso_time \<Rightarrow> database \<Rightarrow> int \<Rightarrow> string \<Rightarrow> string \<Rightarrow> database \<times> bool \<times> db_message" where
  "add_wallet now db user_id address nm =
     (let (db1, u) = get_user now db user_id in
      if length (wallets u) \<ge> 10 then (db1, False, MaximumReached)
      else if dict_has (wallets u) address then (db1, False, AlreadyTracked)
      else (save_data (set_wallets db1 (str_int user_id) u (dict_set address (new_wallet now nm) (wallets u))),
            True, NowTracked nm))"

definition name_matches :: "library \<Rightarrow> string \<Rightarrow> string \<times> wallet \<Rightarrow> bool" where
  "name_matches py identifier p = (lower_of py (name (snd p)) = lower_of py identifier)"

definition remove_wallet :: "library \<Rightarrow> iso_time \<Rightarrow> database \<Rightarrow> int \<Rightarrow> string
    \<Rightarrow> database \<times> bool \<times> db_message" where
  "remove_wallet py now db user_id identifier =
     (let (db1, u) = get_user now db user_id in
      case dict_get (wallets u) identifier of
        Some w \<Rightarrow>
          (save_data (set_wallets db1 (str_int user_id) u (dict_del identifier (wallets u))),
           True, Removed (name w))
      | None \<Rightarrow>
          (case find (name_matches py identifier) (wallets u) of
             Some (addr, data) \<Rightarrow>
               (save_data (set_wallets db1 (str_int user_id) u (dict_del addr (wallets u))),
                True, Removed (name data))
           | None \<Rightarrow> (db1, False, WalletNotFound)))"

text \<open>The wallets a tenant tracks: those of its entry, none when it has no entry.\<close>

definition wallets_of :: "database \<Rightarrow> int \<Rightarrow> (string, wallet) dict" where
  "wallets_of db user_id = (case dict_get (users db) (str_int user_id) of None \<Rightarrow> [] | Some u \<Rightarrow> wallets u)"

section \<open>Fetching and the poll cycle\<close>

text \<open>
  An activity record of the Helius response. The poll cycle reads only \<open>signature\<close>
  (\<open>tx.get("signature")\<close>, \<open>None\<close> when the key is missing); the other fields are read by
  \<open>format_alert\<close> alone: the type, the timestamp in seconds, and the amounts of the native
  transfers (the empty list when the key is missing).
\<close>

record tx =
  signature :: "string option"
  tx_type :: "string option"
  timestamp :: "int option"
  native_transfers :: "int list"

text \<open>
  What the HTTP request of \<open>fetch_transactions\<close> does for an address: it raises (a network
  error, the 10 second timeout), or it answers with a status and a body, and
  \<open>response.json()\<close> on the body raises or gives the records.
\<close>

datatype http_result =
  Raises string
| Response nat "string + tx list"

text \<open>The lines the source prints.\<close>

datatype log =
  ApiError string
| AutoCheck iso_time
| UserBlocked int
| MonitorError string string

text \<open>
  The messages sent to a chat. \<open>Alert tx name address\<close> stands for the text that
  \<open>format_alert(tx, name, address)\<close> returns, \<open>More k\<close> for "+k more transactions...", and
  the other three for the fixed replies of \<open>/check\<close>.
\<close>

datatype message =
  Alert tx string string
| More nat
| Checking
| NoWallets
| NoNew

text \<open>
  What a handler does to the outside, in order: a printed line, a reply to the command's
  chat, a call of \<open>context.bot.send_message\<close> with what it raised (\<open>None\<close> when it
  returned), and \<open>asyncio.sleep\<close>.
\<close>

datatype event =
  Print log
| Reply message
| Send int message "string option"
| Sleep nat

definition fetch_transactions :: "(string \<Rightarrow> http_result) \<Rightarrow> string \<Rightarrow> tx list \<times> event list" where
  "fetch_transactions src address =
     (case src address of
        Raises e \<Rightarrow> ([], [Print (ApiError e)])
      | Response status body \<Rightarrow>
          if status = 200
          then (case body of Inr txs \<Rightarrow> (txs, []) | Inl e \<Rightarrow> ([], [Print (ApiError e)]))
          else ([], []))"

definition cache_key :: "string \<Rightarrow> string \<Rightarrow> string \<Rightarrow> string" where
  "cache_key uid address tx_id = uid @ ''_'' @ address @ ''_'' @ tx_id"

text \<open>
  The variables of one tenant's cycle besides the wallet at hand: \<open>db.tx_cache\<close>, the
  tenant's \<open>alert_count\<close> and the list \<open>new_alerts\<close>.
\<close>

record cycle =
  cache :: "(string, iso_time) dict"
  total :: int
  new_alerts :: "(tx \<times> string \<times> string) list"

text \<open>
  The loop \<open>for tx in transactions\<close>, which \<open>check_command\<close> and \<open>auto_monitor\<close> both
  have with the same body; \<open>uid\<close> is the text of the tenant's id in the cache key.
\<close>

fun scan_transactions :: "iso_time \<Rightarrow> string \<Rightarrow> string \<Rightarrow> tx list \<Rightarrow> wallet \<times> cycle \<Rightarrow> wallet \<times> cycle" where
  "scan_transactions now uid address [] s = s"
| "scan_transactions now uid address (t # ts) (w, c) =
     (case signature t of
        None \<Rightarrow> scan_transactions now uid address ts (w, c)
      | Some tx_id \<Rightarrow>
          if tx_id = [] then scan_transactions now uid address ts (w, c)
          else if dict_has (cache c) (cache_key uid address tx_id)
          then scan_transactions now uid address ts (w, c)
          else scan_transactions now uid address ts
                 (w\<lparr>tx_count := tx_count w + 1, last_tx := Some now\<rparr>,
                  c\<lparr>cache := dict_set (cache_key uid address tx_id) now (cache c),
                    total := total c + 1,
                    new_alerts := new_alerts c @ [(t, name w, address)]\<rparr>))"

text \<open>
  The loop \<open>for address, wallet_data in user["wallets"].items()\<close>. The result is the
  wallets as the loop leaves them, the variables of the cycle, and what the fetches
  printed.
\<close>

fun scan_wallets :: "iso_time \<Rightarrow> (string \<Rightarrow> http_result) \<Rightarrow> string \<Rightarrow> (string, wallet) dict \<Rightarrow> cycle
    \<Rightarrow> (string, wallet) dict \<times> cycle \<times> event list" where
  "scan_wallets now src uid [] c = ([], c, [])"
| "scan_wallets now src uid ((address, wallet_data) # rest) c =
     (let (transactions, printed) = fetch_transactions src address;
          (wallet_data', c1) = scan_transactions now uid address transactions (wallet_data, c);
          (rest', c2, printed') = scan_wallets now src uid rest c1
      in ((address, wallet_data') # rest', c2, printed @ printed'))"

definition start_cycle :: "database \<Rightarrow> user \<Rightarrow> cycle" where
  "start_cycle db u = \<lparr>cache = tx_cache db, total = alert_count u, new_alerts = []\<rparr>"

definition store_cycle :: "database \<Rightarrow> string \<Rightarrow> user \<Rightarrow> (string, wallet) dict \<Rightarrow> cycle \<Rightarrow> database" where
  "store_cycle db uid u ws c =
     db\<lparr>users := dict_set uid (u\<lparr>wallets := ws, alert_count := total c\<rparr>) (users db), tx_cache := cache c\<rparr>"

section \<open>The alert text\<close>

text \<open>
  An exception that leaves a handler: the \<open>RuntimeError\<close> of a dict that changed size while
  it was iterated, and an error of text \<open>e\<close> raised inside \<open>format_alert\<close>.
\<close>

datatype exn = RuntimeError | Raised string

text \<open>
  \<open>format_alert\<close> returns the text, or raises. For a record of type \<open>tx\<close> one call in it
  can raise: \<open>datetime.fromtimestamp(timestamp)\<close>, made when the timestamp is present and
  not 0 (\<open>if timestamp:\<close>). The slices, \<open>replace\<close>, \<open>title\<close> and the division of the first
  transfer's amount by 1e9 do not raise on texts and ints. The result is \<open>Inl e\<close> for an
  error of text \<open>e\<close>.
\<close>

definition format_alert :: "library \<Rightarrow> tx \<Rightarrow> string \<Rightarrow> string \<Rightarrow> string + message" where
  "format_alert py t wallet_name wallet_address =
     (case timestamp t of
        None \<Rightarrow> Inr (Alert t wallet_name wallet_address)
      | Some ts \<Rightarrow>
          if ts = 0 then Inr (Alert t wallet_name wallet_address)
          else (case time_of py ts of
                  Inl e \<Rightarrow> Inl e
                | Inr time_str \<Rightarrow> Inr (Alert t wallet_name wallet_address)))"

section \<open>The manual check\<close>

text \<open>
  The loop \<open>for i, (tx, name, addr) in enumerate(new_alerts[:3])\<close> of \<open>check_command\<close>: an
  error of \<open>format_alert\<close> ends it and leaves the handler.
\<close>

fun reply_alerts :: "library \<Rightarrow> (tx \<times> string \<times> string) list \<Rightarrow> exn option \<times> event list" where
  "reply_alerts py [] = (None, [])"
| "reply_alerts py ((t, nm, addr) # rest) =
     (case format_alert py t nm addr of
        Inl e \<Rightarrow> (Some (Raised e), [])
      | Inr message \<Rightarrow>
          (let (r, ev) = reply_alerts py rest in (r, Reply message # Sleep 1 # ev)))"

definition check_replies :: "library \<Rightarrow> (tx \<times> string \<times> string) list \<Rightarrow> exn option \<times> event list" where
  "check_replies py alerts =
     (case reply_alerts py (take 3 alerts) of
        (Some x, ev) \<Rightarrow> (Some x, ev)
      | (None, ev) \<Rightarrow>
          (None, ev @ (if length alerts > 3 then [Reply (More (length alerts - 3))] else [])))"

text \<open>
  The handler of \<open>/check\<close>. The first component of the result is the exception that left
  the handler, \<open>None\<close> when it returned.
\<close>

definition check_command :: "library \<Rightarrow> iso_time \<Rightarrow> (string \<Rightarrow> http_result) \<Rightarrow> database \<Rightarrow> int
    \<Rightarrow> exn option \<times> database \<times> event list" where
  "check_command py now src db user_id =
     (let (db1, u) = get_user now db user_id in
      if wallets u = [] then (None, db1, [Reply NoWallets])
      else
        (let (ws, c, printed) = scan_wallets now src (str_int user_id) (wallets u) (start_cycle db1 u);
             db2 = store_cycle db1 (str_int user_id) u ws c
         in if new_alerts c \<noteq> []
            then (let (r, ev) = check_replies py (new_alerts c)
                  in (r, save_data db2, Reply Checking # printed @ ev))
            else (None, db2, Reply Checking # printed @ [Reply NoNew])))"

section \<open>The scheduled monitor\<close>

definition unreachable :: "library \<Rightarrow> string \<Rightarrow> bool" where
  "unreachable py e = (contains ''blocked'' (lower_of py e) \<or> contains ''forbidden'' (lower_of py e))"

text \<open>
  How the loop \<open>for tx, name, addr in new_alerts[:3]\<close> of \<open>auto_monitor\<close> ends: it runs to
  its end, it deletes the tenant and breaks, or \<open>format_alert\<close>, which is called outside
  the \<open>try\<close> around the send, raises an error of text \<open>e\<close>.
\<close>

datatype ending = Finished | Deleted | Error string

text \<open>
  \<open>send chat m\<close> is what \<open>send_message\<close> raises for that chat and text, \<open>None\<close> when it
  returns.
\<close>

fun send_alerts :: "library \<Rightarrow> (int \<Rightarrow> message \<Rightarrow> string option) \<Rightarrow> string \<Rightarrow> int
    \<Rightarrow> (tx \<times> string \<times> string) list \<Rightarrow> database \<Rightarrow> ending \<times> database \<times> event list" where
  "send_alerts py send uid chat [] db = (Finished, db, [])"
| "send_alerts py send uid chat ((t, nm, addr) # rest) db =
     (case format_alert py t nm addr of
        Inl x \<Rightarrow> (Error x, db, [])
      | Inr message \<Rightarrow>
          (case send chat message of
             None \<Rightarrow>
               (let (r, db', ev) = send_alerts py send uid chat rest db
                in (r, db', Send chat message None # Sleep 1 # ev))
           | Some e \<Rightarrow>
               if unreachable py e
               then (Deleted, save_data (db\<lparr>users := dict_del uid (users db)\<rparr>),
                     [Send chat message (Some e), Print (UserBlocked chat)])
               else (let (r, db', ev) = send_alerts py send uid chat rest db
                     in (r, db', Send chat message (Some e) # ev))))"

text \<open>
  The body of \<open>for user_id_str, user_data in db.users.items()\<close>: one tenant's step. The
  \<open>except\<close> of the body catches the \<open>ValueError\<close> of \<open>int\<close> and the error of
  \<open>format_alert\<close>, and prints them. The first component of the result tells that the
  tenant's entry was deleted.
\<close>

definition monitor_user :: "library \<Rightarrow> iso_time \<Rightarrow> (string \<Rightarrow> http_result)
    \<Rightarrow> (int \<Rightarrow> message \<Rightarrow> string option) \<Rightarrow> string \<times> user \<Rightarrow> database \<Rightarrow> bool \<times> database \<times> event list" where
  "monitor_user py now src send p db =
     (case p of (user_id_str, user_data) \<Rightarrow>
      (case int_of py user_id_str of
         None \<Rightarrow> (False, db, [Print (MonitorError user_id_str ''ValueError'')])
       | Some user_id \<Rightarrow>
          (let (ws, c, printed) = scan_wallets now src user_id_str (wallets user_data) (start_cycle db user_data);
               db1 = store_cycle db user_id_str user_data ws c
           in if new_alerts c \<noteq> []
              then (case send_alerts py send user_id_str user_id (take 3 (new_alerts c)) (save_data db1) of
                      (Finished, db2, ev) \<Rightarrow> (False, db2, printed @ ev)
                    | (Deleted, db2, ev) \<Rightarrow> (True, db2, printed @ ev)
                    | (Error x, db2, ev) \<Rightarrow> (False, db2, printed @ ev @ [Print (MonitorError user_id_str x)]))
              else (False, db1, printed))))"

text \<open>
  The loop over \<open>db.users.items()\<close>. Once a step has deleted its tenant from \<open>db.users\<close>,
  the dict has changed size, and the next step of the iterator raises \<open>RuntimeError\<close>;
  the \<open>for\<close> statement is outside every \<open>try\<close>, so the error leaves \<open>auto_monitor\<close>.
\<close>

fun monitor_loop :: "library \<Rightarrow> iso_time \<Rightarrow> (string \<Rightarrow> http_result)
    \<Rightarrow> (int \<Rightarrow> message \<Rightarrow> string option) \<Rightarrow> (string, user) dict \<Rightarrow> database
    \<Rightarrow> exn option \<times> database \<times> event list" where
  "monitor_loop py now src send [] db = (None, db, [])"
| "monitor_loop py now src send (p # ps) db =
     (let (gone, db1, ev) = monitor_user py now src send p db in
      if gone then (Some RuntimeError, db1, ev)
      else (let (r, db2, ev') = monitor_loop py now src send ps db1 in (r, db2, ev @ ev')))"

definition auto_monitor :: "library \<Rightarrow> iso_time \<Rightarrow> (string \<Rightarrow> http_result)
    \<Rightarrow> (int \<Rightarrow> message \<Rightarrow> string option) \<Rightarrow> database \<Rightarrow> exn option \<times> database \<times> event list" where
  "auto_monitor py now src send db =
     (let (r, db', ev) = monitor_loop py now src send (users db) db in (r, db', Print (AutoCheck now) # ev))"

section \<open>Notions used to state the properties\<close>

text \<open>
  The database before anything is stored, and sequences of calls of the three methods
  of \<open>WalletDatabase\<close>, each with the clock reading at the call.
\<close>

definition empty_db :: database where
  "empty_db = \<lparr>users = [], tx_cache = [], disk_users = [], disk_cache = []\<rparr>"

datatype db_op = AddWallet int string string | RemoveWallet int string | GetUser int

fun apply_op :: "library \<Rightarrow> iso_time \<Rightarrow> database \<Rightarrow> db_op \<Rightarrow> database" where
  "apply_op py now db (AddWallet user_id address nm) = fst (add_wallet now db user_id address nm)"
| "apply_op py now db (RemoveWallet user_id identifier) = fst (remove_wallet py now db user_id identifier)"
| "apply_op py now db (GetUser user_id) = fst (get_user now db user_id)"

fun run_ops :: "library \<Rightarrow> database \<Rightarrow> (iso_time \<times> db_op) list \<Rightarrow> database" where
  "run_ops py db [] = db"
| "run_ops py db ((now, x) # xs) = run_ops py (apply_op py now db x) xs"

text \<open>
  The library of the examples, which have ASCII texts, decimal keys and no timestamps:
  \<open>lower\<close> maps the letters A to Z to a to z and keeps every other character, as
  \<open>str.lower()\<close> does on ASCII text; \<open>int_of_str\<close> reads digits with an optional minus sign,
  as \<open>int\<close> does on the keys that \<open>get_user\<close> creates; and the time of day is a fixed text.
\<close>

definition lower_char :: "char \<Rightarrow> char" where
  "lower_char c =
     (case map_of (zip ''ABCDEFGHIJKLMNOPQRSTUVWXYZ'' ''abcdefghijklmnopqrstuvwxyz'') c of
        Some l \<Rightarrow> l
      | None \<Rightarrow> c)"

definition lower :: "string \<Rightarrow> string" where
  "lower s = map lower_char s"

definition digit_of :: "char \<Rightarrow> nat option" where
  "digit_of c = map_of (zip ''0123456789'' [0 ..< 10]) c"

fun nat_of_digits :: "nat \<Rightarrow> string \<Rightarrow> nat option" where
  "nat_of_digits acc [] = Some acc"
| "nat_of_digits acc (c # cs) =
     (case digit_of c of None \<Rightarrow> None | Some d \<Rightarrow> nat_of_digits (10 * acc + d) cs)"

definition int_of_str :: "string \<Rightarrow> int option" where
  "int_of_str s =
     (case s of
        [] \<Rightarrow> None
      | c # cs \<Rightarrow>
          if c = CHR ''-'' then (if cs = [] then None else map_option (\<lambda>n. - int n) (nat_of_digits 0 cs))
          else map_option int (nat_of_digits 0 s))"

definition ascii :: library where
  "ascii = \<lparr>int_of = int_of_str, lower_of = lower, time_of = (\<lambda>ts. Inr ''12:00:00'')\<rparr>"

definition quota_ok :: "database \<Rightarrow> bool" where
  "quota_ok db = list_all (\<lambda>p. length (wallets (snd p)) \<le> 10) (users db)"

text \<open>A tenant with ten wallets, for the examples.\<close>

definition ten_adds :: "(iso_time \<times> db_op) list" where
  "ten_adds = map (\<lambda>k. (''t'', AddWallet 7 (digits k) ''w'')) [0 ..< 10]"

definition full_db :: database where
  "full_db = run_ops ascii empty_db ten_adds"

text \<open>
  A tenant with four wallets: one whose address is the text "Main", and two whose names are
  "Main" and "MAIN".
\<close>

definition two_mains :: database where
  "two_mains =
     run_ops ascii empty_db
       [(''t'', AddWallet 7 ''Main'' ''cold''), (''t'', AddWallet 7 ''B'' ''Main''),
        (''t'', AddWallet 7 ''C'' ''MAIN''), (''t'', AddWallet 7 ''D'' ''other'')]"

definition w_named :: "string \<Rightarrow> wallet" where
  "w_named nm = new_wallet ''t'' nm"

text \<open>
  A fetch fails when the request raises, when the status is not 200, or when the body
  of a 200 answer does not parse. \<open>flaky_source\<close> times out for address "A", answers
  500 for "B", and has one record for every other address.
\<close>

definition fetch_fails :: "http_result \<Rightarrow> bool" where
  "fetch_fails r = (case r of Raises e \<Rightarrow> True | Response status body \<Rightarrow> status \<noteq> 200 \<or> isl body)"

definition flaky_source :: "string \<Rightarrow> http_result" where
  "flaky_source address =
     (if address = ''A'' then Raises ''timeout''
      else if address = ''B'' then Response 500 (Inr [])
      else Response 200 (Inr [\<lparr>signature = Some ''s1'', tx_type = None, timestamp = None,
             native_transfers = []\<rparr>]))"

text \<open>
  A source with four records for address "A" and three for "B"; a tenant tracking both,
  and the same tenant beside a second one that tracks "A" too.
\<close>

definition record_of :: "string \<Rightarrow> tx" where
  "record_of s = \<lparr>signature = Some s, tx_type = None, timestamp = None, native_transfers = []\<rparr>"

definition busy_source :: "string \<Rightarrow> http_result" where
  "busy_source address =
     (if address = ''A'' then Response 200 (Inr (map record_of [''s1'', ''s2'', ''s3'', ''s4'']))
      else if address = ''B'' then Response 200 (Inr (map record_of [''s5'', ''s6'', ''s7'']))
      else Response 200 (Inr []))"

definition one_tenant :: database where
  "one_tenant = run_ops ascii empty_db [(''t'', AddWallet 1 ''A'' ''Main''), (''t'', AddWallet 1 ''B'' ''Spare'')]"

definition two_tenants :: database where
  "two_tenants =
     run_ops ascii empty_db
       [(''t'', AddWallet 1 ''A'' ''Main''), (''t'', AddWallet 1 ''B'' ''Spare''),
        (''t'', AddWallet 2 ''A'' ''Mine'')]"

text \<open>
  Three delivery channels: every send returns; every send to chat 1 raises the error of a
  blocked bot; the send of the first alert times out.
\<close>

definition delivered :: "int \<Rightarrow> message \<Rightarrow> string option" where
  "delivered chat m = None"

definition blocked_by_1 :: "int \<Rightarrow> message \<Rightarrow> string option" where
  "blocked_by_1 chat m = (if chat = 1 then Some ''Forbidden: bot was blocked by the user'' else None)"


text \<open>Reading a list of events: the sends, the printed lines, the texts sent in order.\<close>

fun is_send :: "event \<Rightarrow> bool" where
  "is_send (Send chat m r) = True"
| "is_send e = False"

fun is_print :: "event \<Rightarrow> bool" where
  "is_print (Print l) = True"
| "is_print e = False"


definition alert_of :: "tx \<times> string \<times> string \<Rightarrow> message" where
  "alert_of a = (case a of (t, nm, addr) \<Rightarrow> Alert t nm addr)"

text \<open>
  A tenant's entry in \<open>db.users\<close>; an alert for which \<open>format_alert\<close> returns its text;
  and an alert whose send, if it raises, raises an error that is not of the blocked or
  forbidden kind.
\<close>

definition entry :: "database \<Rightarrow> string \<Rightarrow> user" where
  "entry db uid = the (dict_get (users db) uid)"

definition formats :: "library \<Rightarrow> tx \<times> string \<times> string \<Rightarrow> bool" where
  "formats py a = (case a of (t, nm, addr) \<Rightarrow> format_alert py t nm addr = Inr (Alert t nm addr))"


text \<open>
  An event that puts an alert or a summary before a user. A cache "has seen" a list of
  records for an address when the key of every record with a signature is in it, and
  \<open>cache_within ca cb\<close> says that every key of \<open>ca\<close> is a key of \<open>cb\<close>.
\<close>

fun notifies :: "event \<Rightarrow> bool" where
  "notifies (Reply (Alert t nm addr)) = True"
| "notifies (Reply (More k)) = True"
| "notifies (Send chat m r) = True"
| "notifies e = False"

definition seen_all :: "string \<Rightarrow> string \<Rightarrow> (string, iso_time) dict \<Rightarrow> tx list \<Rightarrow> bool" where
  "seen_all uid address ca ts =
     list_all (\<lambda>t. case signature t of None \<Rightarrow> True
                   | Some tx_id \<Rightarrow> tx_id = [] \<or> dict_has ca (cache_key uid address tx_id)) ts"

definition seen_wallets :: "(string \<Rightarrow> http_result) \<Rightarrow> string \<Rightarrow> (string, iso_time) dict \<Rightarrow> string list \<Rightarrow> bool" where
  "seen_wallets src uid ca addresses =
     list_all (\<lambda>a. seen_all uid a ca (fst (fetch_transactions src a))) addresses"

definition cache_within :: "(string, iso_time) dict \<Rightarrow> (string, iso_time) dict \<Rightarrow> bool" where
  "cache_within ca cb = list_all (dict_has cb) (dict_keys ca)"

text \<open>
  A first manual check and a first scheduled step of the tenant of \<open>one_tenant\<close>, and a first
  scheduled pass over \<open>two_tenants\<close>.
\<close>

definition first_check :: "exn option \<times> database \<times> event list" where
  "first_check = check_command ascii ''t1'' busy_source one_tenant 1"

definition first_monitor :: "bool \<times> database \<times> event list" where
  "first_monitor = monitor_user ascii ''t1'' busy_source delivered (''1'', entry one_tenant ''1'') one_tenant"

definition first_pass :: "exn option \<times> database \<times> event list" where
  "first_pass = auto_monitor ascii ''t1'' busy_source delivered two_tenants"

text \<open>
  What belongs to one tenant in a database: its entry in \<open>db.users\<close> (wallets and
  counters) and the cache entries under its keys. \<open>same_view uid db db'\<close> says that
  both are the same in \<open>db\<close> and \<open>db'\<close>; \<open>agree\<close> is the same for the variables of a
  cycle. A key text is plain when it has no underscore, as every \<open>str(user_id)\<close> is.
\<close>

definition same_view :: "string \<Rightarrow> database \<Rightarrow> database \<Rightarrow> bool" where
  "same_view uid db db' \<longleftrightarrow>
     dict_get (users db') uid = dict_get (users db) uid \<and>
     (\<forall>address tx_id. dict_get (tx_cache db') (cache_key uid address tx_id) =
                       dict_get (tx_cache db) (cache_key uid address tx_id))"

definition agree :: "string \<Rightarrow> cycle \<Rightarrow> cycle \<Rightarrow> bool" where
  "agree uid c d \<longleftrightarrow>
     (\<forall>address tx_id. dict_get (cache d) (cache_key uid address tx_id) =
                       dict_get (cache c) (cache_key uid address tx_id)) \<and>
     total d = total c \<and> new_alerts d = new_alerts c"

definition plain :: "string \<Rightarrow> bool" where
  "plain uid = (CHR ''_'' \<notin> set uid)"

text \<open>The database of the two tenants after a manual check of tenant 1.\<close>

definition after_check_1 :: database where
  "after_check_1 = fst (snd (check_command ascii ''t1'' busy_source two_tenants 1))"

section \<open>Facts about dicts\<close>

lemma dict_get_set: "dict_get (dict_set k v d) k' = (if k' = k then Some v else dict_get d k')"
  by (induction d) (auto simp: dict_get_def)

lemma dict_get_del: "dict_get (dict_del k d) k' = (if k' = k then None else dict_get d k')"
  by (induction d) (auto simp: dict_get_def dict_del_def)

lemma dict_has_get: "dict_has d k \<longleftrightarrow> dict_get d k \<noteq> None"
  by (simp add: dict_has_def dict_get_def dict_keys_def map_of_eq_None_iff)

lemma dict_get_in: "dict_get d k = Some v \<Longrightarrow> (k, v) \<in> set d"
  by (simp add: dict_get_def map_of_SomeD)

lemma set_dict_set: "set (dict_set k v d) \<subseteq> insert (k, v) (set d)"
  by (induction d) auto

lemma length_dict_set_le: "length (dict_set k v d) \<le> Suc (length d)"
  by (induction d) auto

lemma length_dict_del_le: "length (dict_del k d) \<le> length d"
  by (simp add: dict_del_def)

lemma list_all_dict_set: "list_all P d \<Longrightarrow> P (k, v) \<Longrightarrow> list_all P (dict_set k v d)"
  using set_dict_set [of k v d] by (auto simp: list_all_iff)

section \<open>The wallet quota\<close>

lemma quota_get_user:
  assumes "quota_ok db" "get_user now db i = (db1, u)"
  shows "quota_ok db1 \<and> length (wallets u) \<le> 10"
proof (cases "dict_get (users db) (str_int i)")
  case None
  then have "db1 = save_data (db\<lparr>users := dict_set (str_int i) (new_user now) (users db)\<rparr>)" "u = new_user now"
    using assms(2) by (auto simp: get_user_def)
  then show ?thesis using assms(1)
    by (simp add: quota_ok_def save_data_def new_user_def list_all_dict_set)
next
  case (Some v)
  then have "db1 = db" "u = v" using assms(2) by (simp_all add: get_user_def)
  moreover have "(str_int i, v) \<in> set (users db)" using Some by (rule dict_get_in)
  ultimately show ?thesis using assms(1) by (auto simp: quota_ok_def list_all_iff)
qed

lemma quota_set_wallets:
  "quota_ok db \<Longrightarrow> length ws \<le> 10 \<Longrightarrow> quota_ok (save_data (set_wallets db uid u ws))"
  by (simp add: quota_ok_def save_data_def set_wallets_def list_all_dict_set)

lemma quota_add_wallet: "quota_ok db \<Longrightarrow> quota_ok (fst (add_wallet now db i a n))"
proof -
  assume q: "quota_ok db"
  obtain db1 u where g: "get_user now db i = (db1, u)" by (cases "get_user now db i")
  from quota_get_user [OF q g] have q1: "quota_ok db1" by simp
  show ?thesis
  proof (cases "length (wallets u) \<ge> 10 \<or> dict_has (wallets u) a")
    case True
    then show ?thesis using g q1 by (auto simp: add_wallet_def)
  next
    case False
    then have "length (dict_set a (new_wallet now n) (wallets u)) \<le> 10"
      using length_dict_set_le [of a "new_wallet now n" "wallets u"] by simp
    then show ?thesis using False g q1 by (simp add: add_wallet_def quota_set_wallets)
  qed
qed

lemma quota_remove_wallet: "quota_ok db \<Longrightarrow> quota_ok (fst (remove_wallet py now db i x))"
proof -
  assume q: "quota_ok db"
  obtain db1 u where g: "get_user now db i = (db1, u)" by (cases "get_user now db i")
  from quota_get_user [OF q g] have q1: "quota_ok db1" and l: "length (wallets u) \<le> 10" by simp_all
  have d: "length (dict_del k (wallets u)) \<le> 10" for k
    using l length_dict_del_le [of k "wallets u"] by simp
  show ?thesis using g q1 d
    by (auto simp: remove_wallet_def quota_set_wallets split: option.splits)
qed

lemma quota_apply_op: "quota_ok db \<Longrightarrow> quota_ok (apply_op py now db x)"
proof (cases x)
  case (GetUser i)
  assume "quota_ok db"
  then show ?thesis using GetUser quota_get_user [of db now i] by (cases "get_user now db i") simp
qed (simp_all add: quota_add_wallet quota_remove_wallet)

lemma quota_run_ops: "quota_ok db \<Longrightarrow> quota_ok (run_ops py db xs)"
  by (induction xs arbitrary: db) (auto simp: quota_apply_op)

lemma get_user_present:
  "dict_get (users db) (str_int i) = Some u \<Longrightarrow> get_user now db i = (db, u)"
  by (simp add: get_user_def)

lemma add_wallet_full:
  assumes "length (wallets_of db i) \<ge> 10"
  shows "add_wallet now db i a n = (db, False, MaximumReached)"
proof -
  from assms obtain u where u: "dict_get (users db) (str_int i) = Some u" "wallets u = wallets_of db i"
    by (auto simp: wallets_of_def split: option.splits)
  then show ?thesis using assms by (simp add: add_wallet_def get_user_present)
qed

text \<open>
  Claim C2. While every tenant has at most 10 wallets, any sequence of \<open>add_wallet\<close>,
  \<open>remove_wallet\<close> and \<open>get_user\<close> calls leaves every tenant with at most 10 wallets; and
  for a tenant that has 10 wallets \<open>add_wallet\<close> returns \<open>False\<close> with the message
  "Maximum 10 wallets reached" and changes nothing, so the tenant's wallets are as before.
\<close>

theorem wallet_quota:
  "(quota_ok db \<longrightarrow> quota_ok (run_ops py db xs)) \<and>
   (length (wallets_of db user_id) = 10 \<longrightarrow>
      add_wallet now db user_id address nm = (db, False, MaximumReached) \<and>
      wallets_of (fst (add_wallet now db user_id address nm)) user_id = wallets_of db user_id)"
  using quota_run_ops [of db py xs] add_wallet_full [of db user_id now address nm] by simp

theorem wallet_quota_witness:
  "quota_ok full_db \<and> quota_ok (run_ops ascii full_db [(''u'', AddWallet 7 ''X'' ''extra'')]) \<and>
   length (wallets_of full_db 7) = 10 \<and>
   add_wallet ''u'' full_db 7 ''X'' ''extra'' = (full_db, False, MaximumReached) \<and>
   wallets_of (fst (add_wallet ''u'' full_db 7 ''X'' ''extra'')) 7 = wallets_of full_db 7"
proof -
  have a: "quota_ok full_db" by code_simp
  have b: "length (wallets_of full_db 7) = 10" by code_simp
  show ?thesis
    using a b wallet_quota [of full_db ascii "[(''u'', AddWallet 7 ''X'' ''extra'')]" 7 "''u''" "''X''" "''extra''"]
    by simp
qed

section \<open>Removing a wallet\<close>

lemma get_user_wallets:
  assumes "get_user now db i = (db1, u)"
  shows "wallets u = wallets_of db i" "dict_get (users db1) (str_int i) = Some u"
  using assms
  by (auto simp: get_user_def Let_def wallets_of_def save_data_def new_user_def dict_get_set split: option.splits)

lemma wallets_of_set_wallets [simp]:
  "wallets_of (save_data (set_wallets db (str_int i) u ws)) i = ws"
  by (simp add: wallets_of_def save_data_def set_wallets_def dict_get_set)

lemma wallets_of_get_user: "wallets_of (fst (get_user now db i)) i = wallets_of db i"
  by (auto simp: get_user_def Let_def wallets_of_def save_data_def new_user_def dict_get_set split: option.splits)

lemma saved_set_wallets [simp]:
  "disk_users (save_data db) = users (save_data db)"
  by (simp add: save_data_def)

lemma find_Some_in: "find P xs = Some x \<Longrightarrow> x \<in> set xs \<and> P x"
  by (induction xs) (auto split: if_splits)

lemma find_first: "\<forall>p \<in> set pre. \<not> P p \<Longrightarrow> P x \<Longrightarrow> find P (pre @ x # post) = Some x"
  by (induction pre) auto

lemma remove_wallet_by_address:
  assumes "dict_get (wallets_of db i) x = Some w"
  shows "remove_wallet py now db i x =
           (save_data (set_wallets (fst (get_user now db i)) (str_int i) (snd (get_user now db i))
              (dict_del x (wallets_of db i))), True, Removed (name w))"
proof -
  obtain db1 u where g: "get_user now db i = (db1, u)" by (cases "get_user now db i")
  from get_user_wallets(1) [OF g] assms show ?thesis
    using g by (simp add: remove_wallet_def)
qed

lemma remove_wallet_by_name:
  assumes "dict_get (wallets_of db i) x = None"
    and "find (name_matches py x) (wallets_of db i) = Some (addr, data)"
  shows "remove_wallet py now db i x =
           (save_data (set_wallets (fst (get_user now db i)) (str_int i) (snd (get_user now db i))
              (dict_del addr (wallets_of db i))), True, Removed (name data))"
proof -
  obtain db1 u where g: "get_user now db i = (db1, u)" by (cases "get_user now db i")
  from get_user_wallets(1) [OF g] assms show ?thesis
    using g by (simp add: remove_wallet_def)
qed

lemma remove_wallet_missing:
  assumes "dict_get (wallets_of db i) x = None"
    and "find (name_matches py x) (wallets_of db i) = None"
  shows "remove_wallet py now db i x = (fst (get_user now db i), False, WalletNotFound)"
proof -
  obtain db1 u where g: "get_user now db i = (db1, u)" by (cases "get_user now db i")
  from get_user_wallets(1) [OF g] assms show ?thesis
    using g by (simp add: remove_wallet_def)
qed

lemma dict_del_absent: "k \<notin> fst ` set d \<Longrightarrow> dict_del k d = d"
  by (induction d) (auto simp: dict_del_def)

lemma dict_del_middle:
  assumes "dict_ok (pre @ (k, v) # post)"
  shows "dict_del k (pre @ (k, v) # post) = pre @ post"
proof -
  from assms have "k \<notin> fst ` set pre" "k \<notin> fst ` set post"
    by (auto simp: dict_ok_def dict_keys_def)
  then have "dict_del k pre = pre" "dict_del k post = post"
    by (simp_all add: dict_del_absent)
  then show ?thesis by (simp add: dict_del_def)
qed

lemma dict_del_filter: "dict_del k d = filter (\<lambda>p. fst p \<noteq> k) d"
  by (simp add: dict_del_def)

lemma filtered_key_gone: "\<not> dict_has (filter (\<lambda>p. fst p \<noteq> k) d) k"
  by (auto simp: dict_has_def dict_keys_def)

text \<open>
  Claim C9. \<open>remove_wallet\<close> looks the identifier up as an address first: when the tenant
  has a wallet at that address, the entry at that address is removed and every other
  entry stays, whatever the names of the other wallets are. When no address is the
  identifier and some wallet's name equals it with letter case ignored, the entry of a
  wallet with such a name is removed and every other entry stays. When neither holds the
  call returns \<open>False\<close> with "Wallet not found" and the tenant's wallets are as before. After
  a removal the file of users holds the users in memory.
\<close>

theorem remove_wallet_matching:
  "(dict_has (wallets_of db user_id) identifier \<longrightarrow>
      (\<exists>db' w. remove_wallet py now db user_id identifier = (db', True, Removed (name w)) \<and>
         dict_get (wallets_of db user_id) identifier = Some w \<and>
         wallets_of db' user_id = filter (\<lambda>p. fst p \<noteq> identifier) (wallets_of db user_id) \<and>
         \<not> dict_has (wallets_of db' user_id) identifier \<and>
         disk_users db' = users db')) \<and>
   (\<not> dict_has (wallets_of db user_id) identifier \<and>
    (\<exists>p \<in> set (wallets_of db user_id). lower_of py (name (snd p)) = lower_of py identifier) \<longrightarrow>
      (\<exists>db' addr data. remove_wallet py now db user_id identifier = (db', True, Removed (name data)) \<and>
         (addr, data) \<in> set (wallets_of db user_id) \<and>
         lower_of py (name data) = lower_of py identifier \<and>
         wallets_of db' user_id = filter (\<lambda>p. fst p \<noteq> addr) (wallets_of db user_id) \<and>
         \<not> dict_has (wallets_of db' user_id) addr \<and>
         disk_users db' = users db')) \<and>
   (\<not> dict_has (wallets_of db user_id) identifier \<and>
    (\<forall>p \<in> set (wallets_of db user_id). lower_of py (name (snd p)) \<noteq> lower_of py identifier) \<longrightarrow>
      (\<exists>db'. remove_wallet py now db user_id identifier = (db', False, WalletNotFound) \<and>
         wallets_of db' user_id = wallets_of db user_id))"
proof (intro conjI impI)
  assume "dict_has (wallets_of db user_id) identifier"
  then obtain w where w: "dict_get (wallets_of db user_id) identifier = Some w"
    by (auto simp: dict_has_get)
  show "\<exists>db' w. remove_wallet py now db user_id identifier = (db', True, Removed (name w)) \<and>
         dict_get (wallets_of db user_id) identifier = Some w \<and>
         wallets_of db' user_id = filter (\<lambda>p. fst p \<noteq> identifier) (wallets_of db user_id) \<and>
         \<not> dict_has (wallets_of db' user_id) identifier \<and>
         disk_users db' = users db'"
    using remove_wallet_by_address [OF w, of py now] w
    by (simp add: dict_del_filter filtered_key_gone)
next
  assume a: "\<not> dict_has (wallets_of db user_id) identifier \<and>
    (\<exists>p \<in> set (wallets_of db user_id). lower_of py (name (snd p)) = lower_of py identifier)"
  then have n: "dict_get (wallets_of db user_id) identifier = None" by (simp add: dict_has_get)
  from a obtain p where "p \<in> set (wallets_of db user_id)" "name_matches py identifier p"
    by (auto simp: name_matches_def)
  then have "find (name_matches py identifier) (wallets_of db user_id) \<noteq> None"
    unfolding find_None_iff by blast
  then obtain addr data where f: "find (name_matches py identifier) (wallets_of db user_id) = Some (addr, data)"
    by (cases "find (name_matches py identifier) (wallets_of db user_id)") auto
  then have m: "(addr, data) \<in> set (wallets_of db user_id)" "lower_of py (name data) = lower_of py identifier"
    by (auto dest: find_Some_in simp: name_matches_def)
  let ?db = "save_data (set_wallets (fst (get_user now db user_id)) (str_int user_id)
               (snd (get_user now db user_id)) (dict_del addr (wallets_of db user_id)))"
  have "remove_wallet py now db user_id identifier = (?db, True, Removed (name data)) \<and>
         (addr, data) \<in> set (wallets_of db user_id) \<and>
         lower_of py (name data) = lower_of py identifier \<and>
         wallets_of ?db user_id = filter (\<lambda>p. fst p \<noteq> addr) (wallets_of db user_id) \<and>
         \<not> dict_has (wallets_of ?db user_id) addr \<and>
         disk_users ?db = users ?db"
    using remove_wallet_by_name [OF n f, of now] m by (simp add: dict_del_filter filtered_key_gone)
  then show "\<exists>db' addr data. remove_wallet py now db user_id identifier = (db', True, Removed (name data)) \<and>
         (addr, data) \<in> set (wallets_of db user_id) \<and>
         lower_of py (name data) = lower_of py identifier \<and>
         wallets_of db' user_id = filter (\<lambda>p. fst p \<noteq> addr) (wallets_of db user_id) \<and>
         \<not> dict_has (wallets_of db' user_id) addr \<and>
         disk_users db' = users db'"
    by blast
next
  assume a: "\<not> dict_has (wallets_of db user_id) identifier \<and>
    (\<forall>p \<in> set (wallets_of db user_id). lower_of py (name (snd p)) \<noteq> lower_of py identifier)"
  then have n: "dict_get (wallets_of db user_id) identifier = None" by (simp add: dict_has_get)
  from a have f: "find (name_matches py identifier) (wallets_of db user_id) = None"
    by (auto simp: find_None_iff name_matches_def)
  show "\<exists>db'. remove_wallet py now db user_id identifier = (db', False, WalletNotFound) \<and>
         wallets_of db' user_id = wallets_of db user_id"
    using remove_wallet_missing [OF n f, of now] by (simp add: wallets_of_get_user)
qed

theorem remove_wallet_matching_witness:
  "(dict_has (wallets_of two_mains 7) ''Main'' \<and>
      (\<exists>db' w. remove_wallet ascii ''u'' two_mains 7 ''Main'' = (db', True, Removed (name w)) \<and>
         dict_get (wallets_of two_mains 7) ''Main'' = Some w \<and>
         wallets_of db' 7 = filter (\<lambda>p. fst p \<noteq> ''Main'') (wallets_of two_mains 7) \<and>
         \<not> dict_has (wallets_of db' 7) ''Main'' \<and>
         disk_users db' = users db') \<and>
      filter (\<lambda>p. fst p \<noteq> ''Main'') (wallets_of two_mains 7) =
        [(''B'', w_named ''Main''), (''C'', w_named ''MAIN''), (''D'', w_named ''other'')]) \<and>
   (\<not> dict_has (wallets_of two_mains 7) ''main'' \<and>
    list_ex (\<lambda>p. lower_of ascii (name (snd p)) = lower_of ascii ''main'') (wallets_of two_mains 7) \<and>
      (\<exists>db' addr data. remove_wallet ascii ''u'' two_mains 7 ''main'' = (db', True, Removed (name data)) \<and>
         (addr, data) \<in> set (wallets_of two_mains 7) \<and>
         lower_of ascii (name data) = lower_of ascii ''main'' \<and>
         wallets_of db' 7 = filter (\<lambda>p. fst p \<noteq> addr) (wallets_of two_mains 7) \<and>
         \<not> dict_has (wallets_of db' 7) addr \<and>
         disk_users db' = users db') \<and>
      wallets_of (fst (remove_wallet ascii ''u'' two_mains 7 ''main'')) 7 =
        [(''Main'', w_named ''cold''), (''C'', w_named ''MAIN''), (''D'', w_named ''other'')]) \<and>
   (\<not> dict_has (wallets_of two_mains 7) ''zzz'' \<and>
    list_all (\<lambda>p. lower_of ascii (name (snd p)) \<noteq> lower_of ascii ''zzz'') (wallets_of two_mains 7) \<and>
      (\<exists>db'. remove_wallet ascii ''u'' two_mains 7 ''zzz'' = (db', False, WalletNotFound) \<and>
         wallets_of db' 7 = wallets_of two_mains 7))"
proof -
  have a: "dict_has (wallets_of two_mains 7) ''Main''" by code_simp
  have a': "filter (\<lambda>p. fst p \<noteq> ''Main'') (wallets_of two_mains 7) =
        [(''B'', w_named ''Main''), (''C'', w_named ''MAIN''), (''D'', w_named ''other'')]" by code_simp
  have b: "\<not> dict_has (wallets_of two_mains 7) ''main''" by code_simp
  have b': "wallets_of (fst (remove_wallet ascii ''u'' two_mains 7 ''main'')) 7 =
        [(''Main'', w_named ''cold''), (''C'', w_named ''MAIN''), (''D'', w_named ''other'')]" by code_simp
  have c': "list_ex (\<lambda>p. lower_of ascii (name (snd p)) = lower_of ascii ''main'') (wallets_of two_mains 7)"
    by code_simp
  then have c: "\<exists>p \<in> set (wallets_of two_mains 7). lower_of ascii (name (snd p)) = lower_of ascii ''main''"
    by (simp add: list_ex_iff)
  have d: "\<not> dict_has (wallets_of two_mains 7) ''zzz''" by code_simp
  have e': "list_all (\<lambda>p. lower_of ascii (name (snd p)) \<noteq> lower_of ascii ''zzz'') (wallets_of two_mains 7)"
    by code_simp
  then have e: "\<forall>p \<in> set (wallets_of two_mains 7). lower_of ascii (name (snd p)) \<noteq> lower_of ascii ''zzz''"
    by (simp add: list_all_iff)
  show ?thesis
    using a a' b b' c c' d e e'
      remove_wallet_matching [of two_mains 7 "''Main''" ascii "''u''"]
      remove_wallet_matching [of two_mains 7 "''main''" ascii "''u''"]
      remove_wallet_matching [of two_mains 7 "''zzz''" ascii "''u''"]
    by blast
qed

text \<open>
  Claim C10. When no address is the identifier and several wallets have the name, with
  letter case ignored, the first of them in the order of the wallet dict (the one added
  earliest) is removed, the call succeeds, and every other wallet, those of the same name
  among them, stays: the dict is one entry shorter.
\<close>

theorem remove_wallet_same_name:
  assumes "dict_ok (wallets_of db user_id)"
    and "\<not> dict_has (wallets_of db user_id) identifier"
    and "wallets_of db user_id = pre @ (addr, data) # post"
    and "\<forall>p \<in> set pre. lower_of py (name (snd p)) \<noteq> lower_of py identifier"
    and "lower_of py (name data) = lower_of py identifier"
  shows "\<exists>db'. remove_wallet py now db user_id identifier = (db', True, Removed (name data)) \<and>
           wallets_of db' user_id = pre @ post \<and>
           length (wallets_of db' user_id) + 1 = length (wallets_of db user_id) \<and>
           set post \<subseteq> set (wallets_of db' user_id)"
proof -
  have n: "dict_get (wallets_of db user_id) identifier = None"
    using assms(2) by (simp add: dict_has_get)
  have f: "find (name_matches py identifier) (wallets_of db user_id) = Some (addr, data)"
    unfolding assms(3) using assms(4,5) by (intro find_first) (simp_all add: name_matches_def)
  have d: "dict_del addr (wallets_of db user_id) = pre @ post"
    using assms(1) unfolding assms(3) by (rule dict_del_middle)
  show ?thesis
    using remove_wallet_by_name [OF n f, of now] d by (simp add: assms(3))
qed

theorem remove_wallet_same_name_witness:
  "dict_ok (wallets_of two_mains 7) \<and> \<not> dict_has (wallets_of two_mains 7) ''main'' \<and>
   wallets_of two_mains 7 =
     [(''Main'', w_named ''cold'')] @ (''B'', w_named ''Main'') # [(''C'', w_named ''MAIN''), (''D'', w_named ''other'')] \<and>
   list_all (\<lambda>p. lower_of ascii (name (snd p)) \<noteq> lower_of ascii ''main'') [(''Main'', w_named ''cold'')] \<and>
   lower_of ascii (name (w_named ''Main'')) = lower_of ascii ''main'' \<and>
   lower_of ascii (name (w_named ''MAIN'')) = lower_of ascii ''main'' \<and>
   (\<exists>db'. remove_wallet ascii ''u'' two_mains 7 ''main'' = (db', True, Removed (name (w_named ''Main''))) \<and>
      wallets_of db' 7 = [(''Main'', w_named ''cold'')] @ [(''C'', w_named ''MAIN''), (''D'', w_named ''other'')] \<and>
      length (wallets_of db' 7) + 1 = length (wallets_of two_mains 7) \<and>
      set [(''C'', w_named ''MAIN''), (''D'', w_named ''other'')] \<subseteq> set (wallets_of db' 7))"
proof -
  have a: "dict_ok (wallets_of two_mains 7)" by code_simp
  have b: "\<not> dict_has (wallets_of two_mains 7) ''main''" by code_simp
  have c: "wallets_of two_mains 7 =
     [(''Main'', w_named ''cold'')] @ (''B'', w_named ''Main'') # [(''C'', w_named ''MAIN''), (''D'', w_named ''other'')]"
    by code_simp
  have d': "list_all (\<lambda>p. lower_of ascii (name (snd p)) \<noteq> lower_of ascii ''main'') [(''Main'', w_named ''cold'')]"
    by code_simp
  then have d: "\<forall>p \<in> set [(''Main'', w_named ''cold'')]. lower_of ascii (name (snd p)) \<noteq> lower_of ascii ''main''"
    by (simp add: list_all_iff)
  have e: "lower_of ascii (name (w_named ''Main'')) = lower_of ascii ''main''" by code_simp
  have e': "lower_of ascii (name (w_named ''MAIN'')) = lower_of ascii ''main''" by code_simp
  show ?thesis
    using a b c d' e e' remove_wallet_same_name [OF a b c d e, of "''u''"] by blast
qed

section \<open>Failed fetches\<close>

lemma fetch_fails_empty: "fetch_fails (src a) \<Longrightarrow> fst (fetch_transactions src a) = []"
  by (auto simp: fetch_fails_def fetch_transactions_def split: http_result.splits sum.splits)

lemma fetch_fails_silent:
  "fetch_fails (src a) \<Longrightarrow>
     snd (fetch_transactions src a) = [] \<longleftrightarrow> (\<exists>status body. src a = Response status body \<and> status \<noteq> 200)"
  by (auto simp: fetch_fails_def fetch_transactions_def split: http_result.splits sum.splits)

lemma scan_wallets_append:
  "scan_wallets now src uid (xs @ ys) c =
     (case scan_wallets now src uid xs c of (xs', c1, out1) \<Rightarrow>
        (case scan_wallets now src uid ys c1 of (ys', c2, out2) \<Rightarrow> (xs' @ ys', c2, out1 @ out2)))"
  by (induction xs arbitrary: c) (auto split: prod.splits)

lemma scan_wallets_keys: "scan_wallets now src uid ws c = (ws', c', out) \<Longrightarrow> map fst ws' = map fst ws"
  by (induction ws arbitrary: c ws' c' out) (auto split: prod.splits)

lemma scan_wallets_length: "scan_wallets now src uid ws c = (ws', c', out) \<Longrightarrow> length ws' = length ws"
  using scan_wallets_keys [of now src uid ws c ws' c' out] by (metis length_map)

lemma scan_wallets_failed_head:
  assumes "fetch_fails (src a)" and "scan_wallets now src uid ws c = (ws', c', out)"
  shows "scan_wallets now src uid ((a, w) # ws) c = ((a, w) # ws', c', snd (fetch_transactions src a) @ out)"
proof -
  obtain pr where f: "fetch_transactions src a = ([], pr)"
    using fetch_fails_empty [of src a] assms(1) by (cases "fetch_transactions src a") auto
  show ?thesis using f assms(2) by simp
qed

text \<open>
  Claim C8, as the code has it. For an address whose fetch fails, \<open>fetch_transactions\<close>
  returns the empty list. It prints the error when the request or the parsing raised;
  for a status other than 200 it prints nothing. The cycle goes on: the wallets before
  and after the failed address are processed as if the address were not tracked, with
  the same cache, counters and new alerts, and the failed address's wallet is as it was.
\<close>

theorem fetch_failure_tolerated:
  assumes "fetch_fails (src address)"
  shows "fst (fetch_transactions src address) = [] \<and>
         (snd (fetch_transactions src address) = [] \<longleftrightarrow>
            (\<exists>status body. src address = Response status body \<and> status \<noteq> 200)) \<and>
         (\<exists>pre' post' c' out out'.
            scan_wallets now src uid (pre @ (address, w) # post) c = (pre' @ (address, w) # post', c', out) \<and>
            scan_wallets now src uid (pre @ post) c = (pre' @ post', c', out') \<and>
            length pre' = length pre)"
proof -
  obtain pre' c1 o1 where a: "scan_wallets now src uid pre c = (pre', c1, o1)"
    by (cases "scan_wallets now src uid pre c")
  obtain post' c2 o2 where b: "scan_wallets now src uid post c1 = (post', c2, o2)"
    by (cases "scan_wallets now src uid post c1")
  have l: "length pre' = length pre"
    using a by (rule scan_wallets_length)
  have "scan_wallets now src uid (pre @ (address, w) # post) c =
          (pre' @ (address, w) # post', c2, o1 @ snd (fetch_transactions src address) @ o2)"
    using a scan_wallets_failed_head [of src address now uid post c1 post' c2 o2 w] assms b
    by (simp add: scan_wallets_append)
  moreover have "scan_wallets now src uid (pre @ post) c = (pre' @ post', c2, o1 @ o2)"
    using a b by (simp add: scan_wallets_append)
  ultimately have "\<exists>pre' post' c' out out'.
            scan_wallets now src uid (pre @ (address, w) # post) c = (pre' @ (address, w) # post', c', out) \<and>
            scan_wallets now src uid (pre @ post) c = (pre' @ post', c', out') \<and>
            length pre' = length pre"
    using l by blast
  then show ?thesis
    using assms fetch_fails_empty [of src address] fetch_fails_silent [of src address] by simp
qed

theorem fetch_failure_tolerated_witness:
  "fetch_fails (flaky_source ''A'') \<and>
   fst (fetch_transactions flaky_source ''A'') = [] \<and>
   (snd (fetch_transactions flaky_source ''A'') = [] \<longleftrightarrow>
      (\<exists>status body. flaky_source ''A'' = Response status body \<and> status \<noteq> 200)) \<and>
   (\<exists>pre' post' c' out out'.
      scan_wallets ''t'' flaky_source ''7''
        ([(''C'', w_named ''x'')] @ (''A'', w_named ''y'') # [(''D'', w_named ''z'')])
        \<lparr>cache = [], total = 0, new_alerts = []\<rparr> = (pre' @ (''A'', w_named ''y'') # post', c', out) \<and>
      scan_wallets ''t'' flaky_source ''7'' ([(''C'', w_named ''x'')] @ [(''D'', w_named ''z'')])
        \<lparr>cache = [], total = 0, new_alerts = []\<rparr> = (pre' @ post', c', out') \<and>
      length pre' = length [(''C'', w_named ''x'')])"
proof -
  have a: "fetch_fails (flaky_source ''A'')" by (simp add: fetch_fails_def flaky_source_def)
  show ?thesis
    using a fetch_failure_tolerated [of flaky_source "''A''" "''t''" "''7''" "[(''C'', w_named ''x'')]"
        "w_named ''y''" "[(''D'', w_named ''z'')]" "\<lparr>cache = [], total = 0, new_alerts = []\<rparr>"]
    by blast
qed

text \<open>
  Claim C8 as first stated has every failed fetch logged. For address "B" the answer has
  status 500: the fetch fails and nothing is printed.
\<close>

theorem non_200_not_logged:
  "fetch_fails (flaky_source ''B'') \<and> fetch_transactions flaky_source ''B'' = ([], [])"
  by (simp add: fetch_fails_def flaky_source_def fetch_transactions_def)

section \<open>Delivery\<close>

lemma format_alert_text: "format_alert py t nm addr = Inr m \<Longrightarrow> m = Alert t nm addr"
  by (auto simp: format_alert_def split: option.splits if_splits sum.splits)

lemma formats_text: "formats py (t, nm, addr) \<Longrightarrow> format_alert py t nm addr = Inr (Alert t nm addr)"
  by (simp add: formats_def)

lemma reply_alerts_formats:
  "list_all (formats py) als \<Longrightarrow>
   reply_alerts py als = (None, concat (map (\<lambda>a. [Reply (alert_of a), Sleep 1]) als))"
  by (induction als) (auto simp: formats_def alert_of_def)

lemma check_replies_cap:
  assumes "alerts = a1 # a2 # a3 # a4 # rest" and "list_all (formats py) [a1, a2, a3]"
  shows "check_replies py alerts =
     (None, [Reply (alert_of a1), Sleep 1, Reply (alert_of a2), Sleep 1, Reply (alert_of a3), Sleep 1,
             Reply (More (length alerts - 3))])"
  using assms reply_alerts_formats [of py "[a1, a2, a3]"] by (simp add: check_replies_def)

lemma scan_wallets_prints:
  "scan_wallets now src uid ws c = (ws', c', out) \<Longrightarrow> list_all is_print out"
proof (induction ws arbitrary: c ws' c' out)
  case Nil
  then show ?case by simp
next
  case (Cons p ws)
  have f: "list_all is_print (snd (fetch_transactions src a))" for a
    by (auto simp: fetch_transactions_def split: http_result.splits sum.splits)
  from Cons.prems show ?case
    using f [of "fst p"] Cons.IH by (cases p) (auto split: prod.splits)
qed

lemma send_alerts_only_alerts:
  "send_alerts py send uid chat als db = (r, db', ev) \<Longrightarrow> Send c (More k) x \<notin> set ev"
proof (induction als arbitrary: r db' ev)
  case Nil
  then show ?case by simp
next
  case (Cons a als)
  obtain t nm addr where a: "a = (t, nm, addr)" by (cases a)
  obtain r1 d1 e1 where r: "send_alerts py send uid chat als db = (r1, d1, e1)"
    by (cases "send_alerts py send uid chat als db")
  from Cons.IH [OF r] have "Send c (More k) x \<notin> set e1" .
  then show ?case using Cons.prems a r
    by (auto split: option.splits if_splits sum.splits dest: format_alert_text)
qed

text \<open>One tenant's step, by the way its send loop ends.\<close>

lemma monitor_user_quiet:
  assumes "int_of py uid = Some user_id"
    and "scan_wallets now src uid (wallets u) (start_cycle db u) = (ws, c, printed)"
    and "new_alerts c = []"
  shows "monitor_user py now src send (uid, u) db = (False, store_cycle db uid u ws c, printed)"
  using assms by (simp add: monitor_user_def)

lemma monitor_user_sends:
  assumes "int_of py uid = Some user_id"
    and "scan_wallets now src uid (wallets u) (start_cycle db u) = (ws, c, printed)"
    and "new_alerts c \<noteq> []"
    and "send_alerts py send uid user_id (take 3 (new_alerts c)) (save_data (store_cycle db uid u ws c)) = (r, d1, e1)"
  shows "monitor_user py now src send (uid, u) db =
           (r = Deleted, d1, printed @ e1 @ (case r of Error x \<Rightarrow> [Print (MonitorError uid x)] | _ \<Rightarrow> []))"
  using assms by (cases r) (simp_all add: monitor_user_def)

lemma monitor_user_never_summarises:
  assumes "monitor_user py now src send (uid, u) db = (gone, db', ev)"
  shows "Send c (More k) x \<notin> set ev"
proof (cases "int_of py uid")
  case None
  then show ?thesis using assms by (auto simp: monitor_user_def)
next
  case (Some user_id)
  obtain ws cy printed where s: "scan_wallets now src uid (wallets u) (start_cycle db u) = (ws, cy, printed)"
    by (cases "scan_wallets now src uid (wallets u) (start_cycle db u)")
  have p: "Send c (More k) x \<notin> set printed"
    using scan_wallets_prints [OF s] by (auto simp: list_all_iff)
  show ?thesis
  proof (cases "new_alerts cy = []")
    case True
    then show ?thesis using monitor_user_quiet [OF Some s True, of send] assms p by simp
  next
    case False
    obtain r d1 e1 where r:
      "send_alerts py send uid user_id (take 3 (new_alerts cy)) (save_data (store_cycle db uid u ws cy)) = (r, d1, e1)"
      by (cases "send_alerts py send uid user_id (take 3 (new_alerts cy)) (save_data (store_cycle db uid u ws cy))")
    from monitor_user_sends [OF Some s False r] assms
    have "ev = printed @ e1 @ (case r of Error x \<Rightarrow> [Print (MonitorError uid x)] | _ \<Rightarrow> [])" by simp
    then show ?thesis using p send_alerts_only_alerts [OF r] by (cases r) auto
  qed
qed

text \<open>
  Claim C3. One tenant tracks two addresses with 4 and 3 new records, 7 in all, and every
  send succeeds. The scheduled monitor sends the first three alerts, each followed by the
  pause of 1, and then nothing: no "+4 more" text, although the tenant's alert count is 7.
  The manual check on the same data replies with the three alerts and "+4 more".
\<close>

theorem monitor_sends_no_summary:
  "snd (snd (auto_monitor ascii ''t1'' busy_source delivered one_tenant)) =
     [Print (AutoCheck ''t1''),
      Send 1 (Alert (record_of ''s1'') ''Main'' ''A'') None, Sleep 1,
      Send 1 (Alert (record_of ''s2'') ''Main'' ''A'') None, Sleep 1,
      Send 1 (Alert (record_of ''s3'') ''Main'' ''A'') None, Sleep 1] \<and>
   alert_count (entry (fst (snd (auto_monitor ascii ''t1'' busy_source delivered one_tenant))) ''1'') = 7 \<and>
   snd (snd (check_command ascii ''t1'' busy_source one_tenant 1)) =
     [Reply Checking,
      Reply (Alert (record_of ''s1'') ''Main'' ''A''), Sleep 1,
      Reply (Alert (record_of ''s2'') ''Main'' ''A''), Sleep 1,
      Reply (Alert (record_of ''s3'') ''Main'' ''A''), Sleep 1,
      Reply (More 4)]"
  by code_simp

section \<open>Delivery failures in the scheduled monitor\<close>

lemma send_alerts_blocked:
  assumes "send_alerts py send uid chat als db = (r, db', ev)"
    and "ev = pre @ Send c m (Some e) # post" and "unreachable py e"
  shows "r = Deleted \<and> db' = save_data (db\<lparr>users := dict_del uid (users db)\<rparr>) \<and>
         post = [Print (UserBlocked chat)]"
  using assms
proof (induction als arbitrary: r db' ev pre)
  case Nil
  then show ?case by simp
next
  case (Cons a als)
  obtain t nm addr where a: "a = (t, nm, addr)" by (cases a)
  obtain r1 d1 e1 where r: "send_alerts py send uid chat als db = (r1, d1, e1)"
    by (cases "send_alerts py send uid chat als db")
  show ?case
  proof (cases "format_alert py t nm addr")
    case (Inl x)
    then have "ev = []" using Cons.prems(1) a by simp
    then show ?thesis using Cons.prems(2) by simp
  next
    case (Inr msg)
    show ?thesis
    proof (cases "send chat msg")
      case None
      then have ev: "ev = Send chat msg None # Sleep 1 # e1" "r = r1" "db' = d1"
        using Cons.prems(1) a r Inr by simp_all
      with Cons.prems(2) obtain pre' where "e1 = pre' @ Send c m (Some e) # post"
        by (auto simp: Cons_eq_append_conv)
      from Cons.IH [OF r this Cons.prems(3)] ev show ?thesis by simp
    next
      case (Some x)
      show ?thesis
      proof (cases "unreachable py x")
        case True
        then have "ev = [Send chat msg (Some x), Print (UserBlocked chat)]"
          "r = Deleted" "db' = save_data (db\<lparr>users := dict_del uid (users db)\<rparr>)"
          using Cons.prems(1) a Some Inr by simp_all
        with Cons.prems(2) show ?thesis by (auto simp: Cons_eq_append_conv)
      next
        case False
        then have ev: "ev = Send chat msg (Some x) # e1" "r = r1" "db' = d1"
          using Cons.prems(1) a r Some Inr by simp_all
        with Cons.prems(2,3) False obtain pre' where "e1 = pre' @ Send c m (Some e) # post"
          by (auto simp: Cons_eq_append_conv)
        from Cons.IH [OF r this Cons.prems(3)] ev show ?thesis by simp
      qed
    qed
  qed
qed

lemma split_after_prints:
  assumes "out @ ev = pre @ x # post" and "list_all is_print out" and "\<not> is_print x"
  shows "\<exists>pre'. ev = pre' @ x # post"
  using assms
proof (induction out arbitrary: pre)
  case Nil
  then show ?case by auto
next
  case (Cons o out)
  then show ?case by (cases pre) auto
qed

lemma split_before_prints:
  assumes "ev @ rest = pre @ x # post" and "list_all is_print rest" and "\<not> is_print x"
  shows "\<exists>post'. ev = pre @ x # post' \<and> post = post' @ rest"
  using assms
proof (induction ev arbitrary: pre)
  case Nil
  then have "x \<in> set rest" by (metis append_Nil in_set_conv_decomp)
  then show ?case using Nil.prems(2,3) by (auto simp: list_all_iff)
next
  case (Cons o ev)
  then show ?case by (cases pre) auto
qed

lemma dict_del_gone: "\<not> dict_has (dict_del k d) k"
  by (simp add: dict_has_get dict_get_del)

lemma dict_has_set [simp]: "dict_has (dict_set k v d) k"
  by (simp add: dict_has_get dict_get_set)


lemma transient_failure_passed_over:
  assumes "format_alert py t nm addr = Inr m" and "send chat m = Some e" and "\<not> unreachable py e"
  shows "send_alerts py send uid chat ((t, nm, addr) # rest) db =
           (case send_alerts py send uid chat rest db of
              (r, db', ev) \<Rightarrow> (r, db', Send chat m (Some e) # ev))"
  using assms by (simp split: prod.splits)

lemma send_alerts_format_error:
  "format_alert py t nm addr = Inl x \<Longrightarrow>
   send_alerts py send uid chat ((t, nm, addr) # rest) db = (Error x, db, [])"
  by simp

text \<open>
  Claim C4. When a send of a tenant's scheduled step raises an error whose text contains
  "blocked" or "forbidden", the step ends with the tenant deleted from \<open>db.users\<close>, with
  the file of users written after the deletion, and no send follows the failed one in the
  step.
\<close>

theorem unreachable_tenant_removed:
  assumes "monitor_user py now src send (uid, u) db = (gone, db', ev)"
    and "ev = pre @ Send chat m (Some e) # post" and "unreachable py e"
  shows "gone \<and> \<not> dict_has (users db') uid \<and> disk_users db' = users db' \<and> \<not> list_ex is_send post"
proof (cases "int_of py uid")
  case None
  then have "ev = [Print (MonitorError uid ''ValueError'')]"
    using assms(1) by (simp add: monitor_user_def)
  then have "list_all is_print ev" by simp
  moreover have "Send chat m (Some e) \<in> set ev" using assms(2) by simp
  ultimately show ?thesis by (auto simp: list_all_iff)
next
  case (Some user_id)
  obtain ws c printed where s: "scan_wallets now src uid (wallets u) (start_cycle db u) = (ws, c, printed)"
    by (cases "scan_wallets now src uid (wallets u) (start_cycle db u)")
  have p: "list_all is_print printed" using s by (rule scan_wallets_prints)
  show ?thesis
  proof (cases "new_alerts c = []")
    case True
    then have "ev = printed" using monitor_user_quiet [OF Some s True, of send] assms(1) by simp
    then have "list_all is_print ev" using p by simp
    moreover have "Send chat m (Some e) \<in> set ev" using assms(2) by simp
    ultimately show ?thesis by (auto simp: list_all_iff)
  next
    case False
    obtain r d1 e1 where r:
      "send_alerts py send uid user_id (take 3 (new_alerts c)) (save_data (store_cycle db uid u ws c)) = (r, d1, e1)"
      by (cases "send_alerts py send uid user_id (take 3 (new_alerts c)) (save_data (store_cycle db uid u ws c))")
    let ?tl = "case r of Error x \<Rightarrow> [Print (MonitorError uid x)] | _ \<Rightarrow> []"
    have t: "list_all is_print ?tl" by (cases r) simp_all
    from monitor_user_sends [OF Some s False r] assms(1)
    have ev: "ev = printed @ e1 @ ?tl" "gone = (r = Deleted)" "db' = d1" by simp_all
    then obtain pre' where "e1 @ ?tl = pre' @ Send chat m (Some e) # post"
      using split_after_prints [of printed "e1 @ ?tl" pre "Send chat m (Some e)" post] p assms(2) by auto
    from split_before_prints [OF this t]
    obtain post' where q: "e1 = pre' @ Send chat m (Some e) # post'" "post = post' @ ?tl" by auto
    from send_alerts_blocked [OF r q(1) assms(3)]
    have "r = Deleted" "d1 = save_data (save_data (store_cycle db uid u ws c)
        \<lparr>users := dict_del uid (users (save_data (store_cycle db uid u ws c)))\<rparr>)"
      "post' = [Print (UserBlocked user_id)]" by simp_all
    then show ?thesis using ev q(2) by (simp add: dict_del_gone save_data_def)
  qed
qed

theorem unreachable_tenant_removed_witness:
  "monitor_user ascii ''t1'' busy_source blocked_by_1 (''1'', entry two_tenants ''1'') two_tenants =
     (fst (monitor_user ascii ''t1'' busy_source blocked_by_1 (''1'', entry two_tenants ''1'') two_tenants),
      fst (snd (monitor_user ascii ''t1'' busy_source blocked_by_1 (''1'', entry two_tenants ''1'') two_tenants)),
      [] @ Send 1 (Alert (record_of ''s1'') ''Main'' ''A'') (Some ''Forbidden: bot was blocked by the user'')
         # [Print (UserBlocked 1)]) \<and>
   unreachable ascii ''Forbidden: bot was blocked by the user'' \<and>
   \<not> dict_has (users (fst (snd (monitor_user ascii ''t1'' busy_source blocked_by_1
       (''1'', entry two_tenants ''1'') two_tenants)))) ''1'' \<and>
   \<not> list_ex is_send [Print (UserBlocked 1)]"
proof -
  let ?r = "monitor_user ascii ''t1'' busy_source blocked_by_1 (''1'', entry two_tenants ''1'') two_tenants"
  have a: "snd (snd ?r) = [] @ Send 1 (Alert (record_of ''s1'') ''Main'' ''A'') (Some ''Forbidden: bot was blocked by the user'')
         # [Print (UserBlocked 1)]" by code_simp
  then have b: "?r = (fst ?r, fst (snd ?r), [] @ Send 1 (Alert (record_of ''s1'') ''Main'' ''A'') (Some ''Forbidden: bot was blocked by the user'')
         # [Print (UserBlocked 1)])" by (metis prod.collapse)
  have c: "unreachable ascii ''Forbidden: bot was blocked by the user''" by code_simp
  show ?thesis
    using b c unreachable_tenant_removed [OF b refl c] by simp
qed




section \<open>The loop over the tenants\<close>

lemma deleted_tenant_stops_loop:
  "monitor_user py now src send p db = (True, db', ev) \<Longrightarrow>
   monitor_loop py now src send (p # ps) db = (Some RuntimeError, db', ev)"
  by simp

lemma bad_key_skipped:
  "int_of py (fst p) = None \<Longrightarrow>
   monitor_loop py now src send (p # ps) db =
     (case monitor_loop py now src send ps db of
        (r, db', ev) \<Rightarrow> (r, db', Print (MonitorError (fst p) ''ValueError'') # ev))"
  by (cases p) (simp add: monitor_user_def split: prod.splits)

lemma format_error_caught:
  assumes "int_of py uid = Some user_id"
    and "scan_wallets now src uid (wallets u) (start_cycle db u) = (ws, c, printed)"
    and "new_alerts c = (t, nm, addr) # rest" and "format_alert py t nm addr = Inl x"
  shows "monitor_user py now src send (uid, u) db =
           (False, save_data (store_cycle db uid u ws c), printed @ [Print (MonitorError uid x)])"
proof -
  have "send_alerts py send uid user_id (take 3 (new_alerts c)) (save_data (store_cycle db uid u ws c)) =
          (Error x, save_data (store_cycle db uid u ws c), [])"
    using assms(3,4) by simp
  from monitor_user_sends [OF assms(1,2) _ this] assms(3) show ?thesis by simp
qed

text \<open>
  Claim C5. Two tenants track address "A", which has new records, and the sends to the
  first tenant raise the error of a blocked bot. The step of the first tenant deletes it
  from \<open>db.users\<close>; the loop over \<open>db.users.items()\<close> then raises \<open>RuntimeError\<close> and
  \<open>auto_monitor\<close> ends. The second tenant is not processed: nothing is sent to it, its entry
  and its cache keys are as before, while its own step would have sent three alerts.
\<close>

theorem removal_aborts_pass:
  "fst (auto_monitor ascii ''t1'' busy_source blocked_by_1 two_tenants) = Some RuntimeError \<and>
   snd (snd (auto_monitor ascii ''t1'' busy_source blocked_by_1 two_tenants)) =
     [Print (AutoCheck ''t1''),
      Send 1 (Alert (record_of ''s1'') ''Main'' ''A'') (Some ''Forbidden: bot was blocked by the user''),
      Print (UserBlocked 1)] \<and>
   dict_get (users (fst (snd (auto_monitor ascii ''t1'' busy_source blocked_by_1 two_tenants)))) ''2'' =
     dict_get (users two_tenants) ''2'' \<and>
   \<not> dict_has (tx_cache (fst (snd (auto_monitor ascii ''t1'' busy_source blocked_by_1 two_tenants)))) (cache_key ''2'' ''A'' ''s1'') \<and>
   snd (snd (monitor_user ascii ''t1'' busy_source blocked_by_1 (''2'', entry two_tenants ''2'') two_tenants)) =
     [Send 2 (Alert (record_of ''s1'') ''Mine'' ''A'') None, Sleep 1,
      Send 2 (Alert (record_of ''s2'') ''Mine'' ''A'') None, Sleep 1,
      Send 2 (Alert (record_of ''s3'') ''Mine'' ''A'') None, Sleep 1]"
  by code_simp

section \<open>A second run of the cycle\<close>

lemma cache_within_has: "cache_within ca cb \<Longrightarrow> dict_has ca k \<Longrightarrow> dict_has cb k"
  by (auto simp: cache_within_def dict_has_def list_all_iff)

lemma cache_within_refl [simp]: "cache_within ca ca"
  by (auto simp: cache_within_def dict_has_def list_all_iff)

lemma cache_within_trans: "cache_within ca cb \<Longrightarrow> cache_within cb cc \<Longrightarrow> cache_within ca cc"
  by (auto simp: cache_within_def dict_has_def list_all_iff)

lemma dict_keys_set: "set (dict_keys (dict_set k v d)) = insert k (set (dict_keys d))"
  by (induction d) (auto simp: dict_keys_def)

lemma cache_within_set: "cache_within ca (dict_set k v ca)"
  by (simp add: cache_within_def list_all_iff dict_has_def dict_keys_set)

lemma seen_all_mono: "cache_within ca cb \<Longrightarrow> seen_all uid a ca ts \<Longrightarrow> seen_all uid a cb ts"
  by (auto simp: seen_all_def list_all_iff split: option.splits dest: cache_within_has)

lemma seen_wallets_mono: "cache_within ca cb \<Longrightarrow> seen_wallets src uid ca as \<Longrightarrow> seen_wallets src uid cb as"
  by (auto simp: seen_wallets_def list_all_iff dest: seen_all_mono)

lemma scan_transactions_grows:
  "scan_transactions now uid a ts (w, c) = (w', c') \<Longrightarrow> cache_within (cache c) (cache c')"
proof (induction ts arbitrary: w c)
  case Nil
  then show ?case by simp
next
  case (Cons t ts)
  show ?case
  proof (cases "\<exists>s. signature t = Some s \<and> s \<noteq> [] \<and> \<not> dict_has (cache c) (cache_key uid a s)")
    case True
    then obtain s where s: "signature t = Some s" "s \<noteq> []" "\<not> dict_has (cache c) (cache_key uid a s)"
      by blast
    let ?c1 = "c\<lparr>cache := dict_set (cache_key uid a s) now (cache c), total := total c + 1,
                 new_alerts := new_alerts c @ [(t, name w, a)]\<rparr>"
    have "scan_transactions now uid a ts (w\<lparr>tx_count := tx_count w + 1, last_tx := Some now\<rparr>, ?c1) = (w', c')"
      using Cons.prems s by simp
    from Cons.IH [OF this] have "cache_within (dict_set (cache_key uid a s) now (cache c)) (cache c')"
      by simp
    then show ?thesis using cache_within_set cache_within_trans by blast
  next
    case False
    then have "scan_transactions now uid a ts (w, c) = (w', c')"
      using Cons.prems by (auto split: option.splits if_splits)
    then show ?thesis by (rule Cons.IH)
  qed
qed

lemma scan_transactions_covers:
  "scan_transactions now uid a ts (w, c) = (w', c') \<Longrightarrow> seen_all uid a (cache c') ts"
proof (induction ts arbitrary: w c)
  case Nil
  then show ?case by (simp add: seen_all_def)
next
  case (Cons t ts)
  show ?case
  proof (cases "\<exists>s. signature t = Some s \<and> s \<noteq> [] \<and> \<not> dict_has (cache c) (cache_key uid a s)")
    case True
    then obtain s where s: "signature t = Some s" "s \<noteq> []" "\<not> dict_has (cache c) (cache_key uid a s)"
      by blast
    let ?c1 = "c\<lparr>cache := dict_set (cache_key uid a s) now (cache c), total := total c + 1,
                 new_alerts := new_alerts c @ [(t, name w, a)]\<rparr>"
    have r: "scan_transactions now uid a ts (w\<lparr>tx_count := tx_count w + 1, last_tx := Some now\<rparr>, ?c1) = (w', c')"
      using Cons.prems s by simp
    have "dict_has (cache ?c1) (cache_key uid a s)" by simp
    then have "dict_has (cache c') (cache_key uid a s)"
      using scan_transactions_grows [OF r] cache_within_has by blast
    then show ?thesis using Cons.IH [OF r] s by (simp add: seen_all_def)
  next
    case False
    then have r: "scan_transactions now uid a ts (w, c) = (w', c')"
      using Cons.prems by (auto split: option.splits if_splits)
    have "dict_has (cache c') (cache_key uid a s)" if "signature t = Some s" "s \<noteq> []" for s
      using that False scan_transactions_grows [OF r] cache_within_has by blast
    then show ?thesis using Cons.IH [OF r] by (auto simp: seen_all_def split: option.splits)
  qed
qed

lemma scan_transactions_seen: "seen_all uid a (cache c) ts \<Longrightarrow> scan_transactions now uid a ts (w, c) = (w, c)"
  by (induction ts) (auto simp: seen_all_def split: option.splits)

lemma scan_wallets_grows:
  "scan_wallets now src uid ws c = (ws', c', out) \<Longrightarrow> cache_within (cache c) (cache c')"
proof (induction ws arbitrary: c ws' c' out)
  case Nil
  then show ?case by simp
next
  case (Cons p ws)
  obtain a w where p: "p = (a, w)" by (cases p)
  obtain ts pr where f: "fetch_transactions src a = (ts, pr)" by (cases "fetch_transactions src a")
  obtain w1 c1 where s: "scan_transactions now uid a ts (w, c) = (w1, c1)"
    by (cases "scan_transactions now uid a ts (w, c)")
  obtain r c2 o2 where r: "scan_wallets now src uid ws c1 = (r, c2, o2)"
    by (cases "scan_wallets now src uid ws c1")
  have "c' = c2" using Cons.prems p f s r by simp
  then show ?case
    using scan_transactions_grows [OF s] Cons.IH [OF r] cache_within_trans by blast
qed

lemma scan_wallets_covers:
  "scan_wallets now src uid ws c = (ws', c', out) \<Longrightarrow> seen_wallets src uid (cache c') (map fst ws)"
proof (induction ws arbitrary: c ws' c' out)
  case Nil
  then show ?case by (simp add: seen_wallets_def)
next
  case (Cons p ws)
  obtain a w where p: "p = (a, w)" by (cases p)
  obtain ts pr where f: "fetch_transactions src a = (ts, pr)" by (cases "fetch_transactions src a")
  obtain w1 c1 where s: "scan_transactions now uid a ts (w, c) = (w1, c1)"
    by (cases "scan_transactions now uid a ts (w, c)")
  obtain r c2 o2 where r: "scan_wallets now src uid ws c1 = (r, c2, o2)"
    by (cases "scan_wallets now src uid ws c1")
  have e: "c' = c2" using Cons.prems p f s r by simp
  have "seen_all uid a (cache c2) ts"
    using scan_transactions_covers [OF s] scan_wallets_grows [OF r] seen_all_mono by blast
  then show ?case using Cons.IH [OF r] e p f by (simp add: seen_wallets_def)
qed

lemma scan_wallets_seen:
  "seen_wallets src uid (cache c) (map fst ws) \<Longrightarrow> \<exists>out. scan_wallets now src uid ws c = (ws, c, out)"
proof (induction ws)
  case Nil
  then show ?case by simp
next
  case (Cons p ws)
  obtain a w where p: "p = (a, w)" by (cases p)
  obtain ts pr where f: "fetch_transactions src a = (ts, pr)" by (cases "fetch_transactions src a")
  from Cons.prems p f have "seen_all uid a (cache c) ts" and "seen_wallets src uid (cache c) (map fst ws)"
    by (simp_all add: seen_wallets_def)
  then show ?case using Cons.IH p f by (auto simp: scan_transactions_seen)
qed

lemma scan_wallets_again:
  assumes "scan_wallets now src uid ws c = (ws', c', out)" and "cache_within (cache c') (cache d)"
  shows "\<exists>out'. scan_wallets now' src uid ws' d = (ws', d, out') \<and> list_all is_print out'"
proof -
  have "seen_wallets src uid (cache d) (map fst ws')"
    using scan_wallets_covers [OF assms(1)] scan_wallets_keys [OF assms(1)] assms(2) seen_wallets_mono
    by metis
  then obtain out' where "scan_wallets now' src uid ws' d = (ws', d, out')"
    using scan_wallets_seen by blast
  then show ?thesis using scan_wallets_prints by blast
qed

lemma dict_set_same: "dict_get d k = Some v \<Longrightarrow> dict_set k v d = d"
  by (induction d) (auto simp: dict_get_def split: if_splits)

lemma store_cycle_same:
  assumes "dict_get (users db) uid = Some u" and "wallets u = ws" and "alert_count u = total c"
    and "tx_cache db = cache c"
  shows "store_cycle db uid u ws c = db"
proof -
  have "u\<lparr>wallets := ws, alert_count := total c\<rparr> = u" using assms(2,3) by simp
  then show ?thesis using assms(1,4) by (simp add: store_cycle_def dict_set_same)
qed

lemma prints_do_not_notify: "list_all is_print out \<Longrightarrow> \<not> list_ex notifies out"
proof (induction out)
  case Nil
  then show ?case by simp
next
  case (Cons e out)
  then show ?case by (cases e) auto
qed

lemma stored_entry:
  "dict_get (users (store_cycle db uid u ws c)) uid = Some (u\<lparr>wallets := ws, alert_count := total c\<rparr>)"
  by (simp add: store_cycle_def dict_get_set)

lemma rerun_stored:
  assumes "scan_wallets now src uid (wallets u) (start_cycle db u) = (ws, c, printed)"
    and "dict_get (users db2) uid = Some u2" and "u2 = u\<lparr>wallets := ws, alert_count := total c\<rparr>"
    and "cache_within (cache c) (tx_cache db2)"
  shows "\<exists>out. scan_wallets now' src uid (wallets u2) (start_cycle db2 u2) = (ws, start_cycle db2 u2, out) \<and>
           list_all is_print out \<and> store_cycle db2 uid u2 ws (start_cycle db2 u2) = db2"
proof -
  have w: "wallets u2 = ws" using assms(3) by simp
  have "cache_within (cache c) (cache (start_cycle db2 u2))"
    using assms(4) by (simp add: start_cycle_def)
  from scan_wallets_again [OF assms(1) this, of now']
  obtain out where o: "scan_wallets now' src uid ws (start_cycle db2 u2) = (ws, start_cycle db2 u2, out)"
    "list_all is_print out" by blast
  have "store_cycle db2 uid u2 ws (start_cycle db2 u2) = db2"
    using assms(2) w by (intro store_cycle_same) (simp_all add: start_cycle_def)
  then show ?thesis using o w by simp
qed

lemma check_command_twice:
  assumes "check_command py now src db user_id = (r, db1, out1)"
  shows "\<exists>out2. check_command py now' src db1 user_id = (None, db1, out2) \<and> \<not> list_ex notifies out2"
proof -
  obtain dbg u where g: "get_user now db user_id = (dbg, u)" by (cases "get_user now db user_id")
  have gu: "dict_get (users dbg) (str_int user_id) = Some u" using get_user_wallets(2) [OF g] .
  show ?thesis
  proof (cases "wallets u = []")
    case True
    then have "db1 = dbg" using assms g by (simp add: check_command_def)
    then show ?thesis using True gu by (simp add: check_command_def get_user_present)
  next
    case False
    obtain ws c printed where s:
      "scan_wallets now src (str_int user_id) (wallets u) (start_cycle dbg u) = (ws, c, printed)"
      by (cases "scan_wallets now src (str_int user_id) (wallets u) (start_cycle dbg u)")
    let ?u2 = "u\<lparr>wallets := ws, alert_count := total c\<rparr>"
    have d: "db1 = store_cycle dbg (str_int user_id) u ws c \<or>
             db1 = save_data (store_cycle dbg (str_int user_id) u ws c)"
      using assms g s False
      by (cases "new_alerts c = []") (auto simp: check_command_def split: prod.splits)
    then have e: "dict_get (users db1) (str_int user_id) = Some ?u2" and t: "tx_cache db1 = cache c"
      by (auto simp: store_cycle_def save_data_def dict_get_set)
    have "length ws = length (wallets u)" using s by (rule scan_wallets_length)
    then have n: "wallets ?u2 \<noteq> []" using False by auto
    from rerun_stored [OF s e refl, of now'] t
    obtain out where o:
      "scan_wallets now' src (str_int user_id) (wallets ?u2) (start_cycle db1 ?u2) = (ws, start_cycle db1 ?u2, out)"
      "list_all is_print out" "store_cycle db1 (str_int user_id) ?u2 ws (start_cycle db1 ?u2) = db1"
      by auto
    have "check_command py now' src db1 user_id = (None, db1, Reply Checking # out @ [Reply NoNew])"
      using e n o unfolding check_command_def get_user_present [OF e]
      by (simp add: start_cycle_def)
    moreover have "\<not> list_ex notifies (Reply Checking # out @ [Reply NoNew])"
      using prints_do_not_notify [OF o(2)] by simp
    ultimately show ?thesis by blast
  qed
qed

lemma send_alerts_kept:
  "send_alerts py send uid chat als db = (r, db', ev) \<Longrightarrow> r \<noteq> Deleted \<Longrightarrow> db' = db"
proof (induction als arbitrary: r db' ev)
  case Nil
  then show ?case by simp
next
  case (Cons a als)
  obtain t nm addr where a: "a = (t, nm, addr)" by (cases a)
  obtain r1 d1 e1 where r: "send_alerts py send uid chat als db = (r1, d1, e1)"
    by (cases "send_alerts py send uid chat als db")
  from Cons.prems a r have "db' = db \<or> (r1 = r \<and> d1 = db')"
    by (auto split: option.splits if_splits sum.splits)
  then show ?case using Cons.IH [OF r] Cons.prems(2) by auto
qed

lemma monitor_user_state:
  assumes "monitor_user py now src send (uid, u) db = (False, db1, ev)"
    and "int_of py uid = Some user_id"
    and "scan_wallets now src uid (wallets u) (start_cycle db u) = (ws, c, printed)"
  shows "db1 = store_cycle db uid u ws c \<or> db1 = save_data (store_cycle db uid u ws c)"
proof (cases "new_alerts c = []")
  case True
  then show ?thesis using monitor_user_quiet [OF assms(2,3) True, of send] assms(1) by simp
next
  case False
  obtain r d1 e1 where r:
    "send_alerts py send uid user_id (take 3 (new_alerts c)) (save_data (store_cycle db uid u ws c)) = (r, d1, e1)"
    by (cases "send_alerts py send uid user_id (take 3 (new_alerts c)) (save_data (store_cycle db uid u ws c))")
  from monitor_user_sends [OF assms(2,3) False r] assms(1) have "r \<noteq> Deleted" "d1 = db1" by simp_all
  then show ?thesis using send_alerts_kept [OF r] by simp
qed

lemma monitor_user_later:
  assumes "monitor_user py now src send (uid, u) db = (False, db1, ev1)"
    and "dict_get (users db) uid = Some u"
    and "dict_get (users db2) uid = dict_get (users db1) uid"
    and "cache_within (tx_cache db1) (tx_cache db2)"
  shows "\<exists>ev2. monitor_user py now' src send' (uid, entry db2 uid) db2 = (False, db2, ev2) \<and>
           \<not> list_ex notifies ev2"
proof (cases "int_of py uid")
  case None
  then show ?thesis by (simp add: monitor_user_def)
next
  case (Some user_id)
  obtain ws c printed where s: "scan_wallets now src uid (wallets u) (start_cycle db u) = (ws, c, printed)"
    by (cases "scan_wallets now src uid (wallets u) (start_cycle db u)")
  let ?u2 = "u\<lparr>wallets := ws, alert_count := total c\<rparr>"
  have d: "db1 = store_cycle db uid u ws c \<or> db1 = save_data (store_cycle db uid u ws c)"
    using assms(1) Some s by (rule monitor_user_state)
  then have "dict_get (users db1) uid = Some ?u2" and t: "tx_cache db1 = cache c"
    by (auto simp: store_cycle_def save_data_def dict_get_set)
  then have e: "dict_get (users db2) uid = Some ?u2" "entry db2 uid = ?u2"
    using assms(3) by (simp_all add: entry_def)
  from rerun_stored [OF s e(1) refl, of now'] t assms(4)
  obtain out where o:
    "scan_wallets now' src uid (wallets ?u2) (start_cycle db2 ?u2) = (ws, start_cycle db2 ?u2, out)"
    "list_all is_print out" "store_cycle db2 uid ?u2 ws (start_cycle db2 ?u2) = db2"
    by auto
  have "monitor_user py now' src send' (uid, entry db2 uid) db2 = (False, db2, out)"
    using Some o e by (simp add: monitor_user_def start_cycle_def)
  then show ?thesis using prints_do_not_notify [OF o(2)] by blast
qed

lemma dict_keys_set_present: "dict_has d k \<Longrightarrow> dict_keys (dict_set k v d) = dict_keys d"
  by (induction d) (auto simp: dict_has_def dict_keys_def)

lemma monitor_user_kept:
  assumes "monitor_user py now src send (uid, u) db = (False, db1, ev)"
  shows "(\<forall>k. k \<noteq> uid \<longrightarrow> dict_get (users db1) k = dict_get (users db) k) \<and>
         cache_within (tx_cache db) (tx_cache db1) \<and>
         (dict_has (users db) uid \<longrightarrow> dict_keys (users db1) = dict_keys (users db))"
proof (cases "int_of py uid")
  case None
  then show ?thesis using assms by (simp add: monitor_user_def)
next
  case (Some user_id)
  obtain ws c printed where s: "scan_wallets now src uid (wallets u) (start_cycle db u) = (ws, c, printed)"
    by (cases "scan_wallets now src uid (wallets u) (start_cycle db u)")
  have d: "db1 = store_cycle db uid u ws c \<or> db1 = save_data (store_cycle db uid u ws c)"
    using assms Some s by (rule monitor_user_state)
  have "cache_within (tx_cache db) (cache c)"
    using scan_wallets_grows [OF s] by (simp add: start_cycle_def)
  then show ?thesis using d
    by (auto simp: store_cycle_def save_data_def dict_get_set dict_keys_set_present)
qed

lemma monitor_loop_kept:
  assumes "monitor_loop py now src send ps db = (None, dbF, ev)"
    and "\<forall>p \<in> set ps. dict_has (users db) (fst p)"
  shows "(\<forall>k. k \<notin> fst ` set ps \<longrightarrow> dict_get (users dbF) k = dict_get (users db) k) \<and>
         cache_within (tx_cache db) (tx_cache dbF) \<and> dict_keys (users dbF) = dict_keys (users db)"
  using assms
proof (induction ps arbitrary: db ev)
  case Nil
  then show ?case by simp
next
  case (Cons p ps)
  obtain uid u where p: "p = (uid, u)" by (cases p)
  obtain g db1 e1 where m: "monitor_user py now src send (uid, u) db = (g, db1, e1)"
    by (cases "monitor_user py now src send (uid, u) db")
  obtain r db2 e2 where l: "monitor_loop py now src send ps db1 = (r, db2, e2)"
    by (cases "monitor_loop py now src send ps db1")
  have g: "g = False" using Cons.prems(1) p m by (cases g) simp_all
  then have f: "r = None" "db2 = dbF" using Cons.prems(1) p m l by simp_all
  from monitor_user_kept [OF m [unfolded g]] Cons.prems(2) p
  have k: "\<forall>k. k \<noteq> uid \<longrightarrow> dict_get (users db1) k = dict_get (users db) k"
    "cache_within (tx_cache db) (tx_cache db1)" "dict_keys (users db1) = dict_keys (users db)"
    by simp_all
  have "\<forall>q \<in> set ps. dict_has (users db1) (fst q)"
    using Cons.prems(2) k(3) by (simp add: dict_has_def)
  from Cons.IH [OF l [unfolded f] this] k show ?case
    using p cache_within_trans by auto
qed

lemma monitor_loop_again:
  assumes "monitor_loop py now src send ps db = (None, dbF, ev)"
    and "distinct (map fst ps)"
    and "\<forall>p \<in> set ps. dict_get (users db) (fst p) = Some (snd p)"
    and "\<forall>p \<in> set ps. dict_get (users db2) (fst p) = dict_get (users dbF) (fst p)"
    and "cache_within (tx_cache dbF) (tx_cache db2)"
  shows "\<exists>ev2. monitor_loop py now' src send' (map (\<lambda>p. (fst p, entry db2 (fst p))) ps) db2 = (None, db2, ev2) \<and>
           \<not> list_ex notifies ev2"
  using assms
proof (induction ps arbitrary: db ev)
  case Nil
  then show ?case by simp
next
  case (Cons p ps)
  obtain uid u where p: "p = (uid, u)" by (cases p)
  obtain g db1 e1 where m: "monitor_user py now src send (uid, u) db = (g, db1, e1)"
    by (cases "monitor_user py now src send (uid, u) db")
  obtain r db3 e3 where l: "monitor_loop py now src send ps db1 = (r, db3, e3)"
    by (cases "monitor_loop py now src send ps db1")
  have g: "g = False" using Cons.prems(1) p m by (cases g) simp_all
  then have f: "r = None" "db3 = dbF" using Cons.prems(1) p m l by simp_all
  have u: "dict_get (users db) uid = Some u" using Cons.prems(3) p by simp
  from monitor_user_kept [OF m [unfolded g]] u
  have k: "\<forall>k. k \<noteq> uid \<longrightarrow> dict_get (users db1) k = dict_get (users db) k"
    "dict_keys (users db1) = dict_keys (users db)"
    by (simp_all add: dict_has_get)
  have n: "uid \<notin> fst ` set ps" using Cons.prems(2) p by simp
  have e: "\<forall>q \<in> set ps. dict_get (users db1) (fst q) = Some (snd q)"
    using Cons.prems(3) k(1) n by (metis image_eqI list.set_intros(2))
  then have h: "\<forall>q \<in> set ps. dict_has (users db1) (fst q)" by (simp add: dict_has_get)
  from monitor_loop_kept [OF l [unfolded f] h] n
  have t: "dict_get (users dbF) uid = dict_get (users db1) uid" "cache_within (tx_cache db1) (tx_cache dbF)"
    by simp_all
  have "dict_get (users db2) uid = dict_get (users db1) uid" using Cons.prems(4) p t(1) by simp
  from monitor_user_later [OF m [unfolded g] u this cache_within_trans [OF t(2) Cons.prems(5)], of now' send']
  obtain ev2 where a: "monitor_user py now' src send' (uid, entry db2 uid) db2 = (False, db2, ev2)"
    "\<not> list_ex notifies ev2" by blast
  from Cons.IH [OF l [unfolded f] _ e _ Cons.prems(5)] Cons.prems(2,4)
  obtain ev3 where b:
    "monitor_loop py now' src send' (map (\<lambda>p. (fst p, entry db2 (fst p))) ps) db2 = (None, db2, ev3)"
    "\<not> list_ex notifies ev3" by auto
  show ?case using a b p by simp
qed

lemma dict_ok_entries: "dict_ok d \<Longrightarrow> p \<in> set d \<Longrightarrow> dict_get d (fst p) = Some (snd p)"
  by (cases p) (simp add: dict_ok_def dict_keys_def dict_get_def)

lemma dict_by_keys:
  assumes "dict_ok d"
  shows "map (\<lambda>k. (k, the (dict_get d k))) (dict_keys d) = d"
proof -
  have "(fst p, the (dict_get d (fst p))) = p" if "p \<in> set d" for p
    using dict_ok_entries [OF assms that] by simp
  then have "map (\<lambda>p. (fst p, the (dict_get d (fst p)))) d = d" by (simp add: map_idI)
  then show ?thesis by (simp add: dict_keys_def comp_def)
qed

lemma auto_monitor_twice:
  assumes "auto_monitor py now src send db = (None, dbF, ev)" and "dict_ok (users db)"
  shows "\<exists>ev2. auto_monitor py now' src send' dbF = (None, dbF, ev2) \<and> \<not> list_ex notifies ev2"
proof -
  obtain r d e where l: "monitor_loop py now src send (users db) db = (r, d, e)"
    by (cases "monitor_loop py now src send (users db) db")
  then have l: "monitor_loop py now src send (users db) db = (None, dbF, e)"
    using assms(1) by (simp add: auto_monitor_def)
  have en: "\<forall>p \<in> set (users db). dict_get (users db) (fst p) = Some (snd p)"
    using dict_ok_entries [OF assms(2)] by blast
  then have "\<forall>p \<in> set (users db). dict_has (users db) (fst p)" by (simp add: dict_has_get)
  from monitor_loop_kept [OF l this] have k: "dict_keys (users dbF) = dict_keys (users db)" by simp
  then have "dict_ok (users dbF)" using assms(2) by (simp add: dict_ok_def)
  from dict_by_keys [OF this]
  have "users dbF = map (\<lambda>k. (k, the (dict_get (users dbF) k))) (dict_keys (users db))"
    unfolding k by simp
  then have "users dbF = map (\<lambda>p. (fst p, entry dbF (fst p))) (users db)"
    unfolding entry_def dict_keys_def map_map comp_def .
  moreover from monitor_loop_again [OF l _ en, of dbF now' send'] assms(2)
  obtain ev2 where "monitor_loop py now' src send' (map (\<lambda>p. (fst p, entry dbF (fst p))) (users db)) dbF =
      (None, dbF, ev2)" "\<not> list_ex notifies ev2"
    by (auto simp: dict_ok_def dict_keys_def)
  ultimately show ?thesis by (simp add: auto_monitor_def)
qed

text \<open>
  Claim C1. After a manual check, a second manual check of the same tenant with the same
  answers of the source leaves the database as it is (no cache key, no counter, no
  timestamp changes) and replies with no alert and no summary. After a scheduled step
  that kept the tenant, a second scheduled step of the tenant leaves the database as it
  is and sends nothing. After a scheduled pass over all tenants that ran to its end, a
  second pass leaves the database as it is and sends nothing to anyone.
\<close>

theorem second_run_finds_nothing:
  assumes "check_command py now src db user_id = (r, db1, out1)"
    and "monitor_user py now src send (uid, u) dbm = (False, dbm1, ev1)"
    and "dict_get (users dbm) uid = Some u"
    and "auto_monitor py now src send dba = (None, dba1, eva)"
    and "dict_ok (users dba)"
  shows "(\<exists>out2. check_command py now' src db1 user_id = (None, db1, out2) \<and> \<not> list_ex notifies out2) \<and>
         (\<exists>ev2. monitor_user py now' src send' (uid, entry dbm1 uid) dbm1 = (False, dbm1, ev2) \<and>
            \<not> list_ex notifies ev2) \<and>
         (\<exists>ev2. auto_monitor py now' src send' dba1 = (None, dba1, ev2) \<and> \<not> list_ex notifies ev2)"
  using check_command_twice [OF assms(1)] monitor_user_later [OF assms(2,3) refl]
    auto_monitor_twice [OF assms(4,5)] by simp

theorem second_run_finds_nothing_witness:
  "check_command ascii ''t1'' busy_source one_tenant 1 =
     (fst first_check, fst (snd first_check), snd (snd first_check)) \<and>
   monitor_user ascii ''t1'' busy_source delivered (''1'', entry one_tenant ''1'') one_tenant =
     (False, fst (snd first_monitor), snd (snd first_monitor)) \<and>
   dict_get (users one_tenant) ''1'' = Some (entry one_tenant ''1'') \<and>
   auto_monitor ascii ''t1'' busy_source delivered two_tenants =
     (None, fst (snd first_pass), snd (snd first_pass)) \<and>
   dict_ok (users two_tenants) \<and>
   list_ex notifies (snd (snd first_check)) \<and> list_ex notifies (snd (snd first_monitor)) \<and>
   list_ex notifies (snd (snd first_pass)) \<and>
   (\<exists>out2. check_command ascii ''t2'' busy_source (fst (snd first_check)) 1 =
        (None, fst (snd first_check), out2) \<and>
      \<not> list_ex notifies out2) \<and>
   (\<exists>ev2. monitor_user ascii ''t2'' busy_source delivered
        (''1'', entry (fst (snd first_monitor)) ''1'') (fst (snd first_monitor)) =
        (False, fst (snd first_monitor), ev2) \<and>
      \<not> list_ex notifies ev2) \<and>
   (\<exists>ev2. auto_monitor ascii ''t2'' busy_source delivered (fst (snd first_pass)) =
        (None, fst (snd first_pass), ev2) \<and>
      \<not> list_ex notifies ev2)"
proof -
  have a: "check_command ascii ''t1'' busy_source one_tenant 1 =
     (fst first_check, fst (snd first_check), snd (snd first_check))"
    by (simp add: first_check_def)
  have "fst first_monitor = False" by code_simp
  then have b: "monitor_user ascii ''t1'' busy_source delivered (''1'', entry one_tenant ''1'') one_tenant =
     (False, fst (snd first_monitor), snd (snd first_monitor))"
    unfolding first_monitor_def by (metis prod.collapse)
  have c: "dict_get (users one_tenant) ''1'' = Some (entry one_tenant ''1'')" by code_simp
  have "fst first_pass = None" by code_simp
  then have d: "auto_monitor ascii ''t1'' busy_source delivered two_tenants =
     (None, fst (snd first_pass), snd (snd first_pass))"
    unfolding first_pass_def by (metis prod.collapse)
  have e: "dict_ok (users two_tenants)" by code_simp
  have f: "list_ex notifies (snd (snd first_check))" "list_ex notifies (snd (snd first_monitor))"
    "list_ex notifies (snd (snd first_pass))" by code_simp+
  show ?thesis
    using a b c d e f
      second_run_finds_nothing [OF a b c d e, where now' = "''t2''" and send' = delivered]
    by simp
qed

section \<open>The text of a tenant id\<close>

lemma digit_table:
  "\<forall>d \<in> set [0 ..< 10]. digit_of (digit_char d) = Some d \<and> digit_char d \<noteq> CHR ''_'' \<and> digit_char d \<noteq> CHR ''-''"
  by code_simp

lemma digit_char_facts:
  assumes "d < 10"
  shows "digit_of (digit_char d) = Some d" "digit_char d \<noteq> CHR ''_''" "digit_char d \<noteq> CHR ''-''"
  using assms digit_table by auto

lemma digit_char_inj: "a < 10 \<Longrightarrow> b < 10 \<Longrightarrow> digit_char a = digit_char b \<Longrightarrow> a = b"
  using digit_char_facts(1) by (metis option.inject)

lemma digits_nonempty: "digits n \<noteq> []"
  by (subst digits.simps) simp

lemma digits_chars: "c \<in> set (digits n) \<Longrightarrow> c \<noteq> CHR ''_'' \<and> c \<noteq> CHR ''-''"
proof (induction n rule: digits.induct)
  case (1 n)
  show ?case
  proof (cases "n < 10")
    case True
    then show ?thesis using "1.prems" digit_char_facts(2,3) [of n] by (simp add: digits.simps [of n])
  next
    case False
    then have "c \<in> set (digits (n div 10)) \<or> c = digit_char (n mod 10)"
      using "1.prems" by (auto simp: digits.simps [of n])
    then show ?thesis
      using "1.IH" [OF False] digit_char_facts(2,3) [of "n mod 10"] by auto
  qed
qed

lemma digits_inj: "digits n = digits m \<Longrightarrow> n = m"
proof (induction n arbitrary: m rule: digits.induct)
  case (1 n)
  show ?case
  proof (cases "n < 10")
    case True
    then have n: "digits n = [digit_char n]" by (simp add: digits.simps [of n])
    show ?thesis
    proof (cases "m < 10")
      case True
      then have "digits m = [digit_char m]" by (simp add: digits.simps [of m])
      then show ?thesis using n "1.prems" \<open>n < 10\<close> True digit_char_inj by simp
    next
      case False
      then have "digits m = digits (m div 10) @ [digit_char (m mod 10)]" by (simp add: digits.simps [of m])
      then show ?thesis using n "1.prems" digits_nonempty [of "m div 10"] by simp
    qed
  next
    case False
    then have n: "digits n = digits (n div 10) @ [digit_char (n mod 10)]" by (simp add: digits.simps [of n])
    show ?thesis
    proof (cases "m < 10")
      case True
      then have "digits m = [digit_char m]" by (simp add: digits.simps [of m])
      then show ?thesis using n "1.prems" digits_nonempty [of "n div 10"] by simp
    next
      case m: False
      then have "digits m = digits (m div 10) @ [digit_char (m mod 10)]" by (simp add: digits.simps [of m])
      then have "digits (n div 10) = digits (m div 10)" "digit_char (n mod 10) = digit_char (m mod 10)"
        using n "1.prems" by simp_all
      then have "n div 10 = m div 10" "n mod 10 = m mod 10"
        using "1.IH" [OF False] digit_char_inj [of "n mod 10" "m mod 10"] by simp_all
      then show ?thesis by (metis div_mult_mod_eq)
    qed
  qed
qed

lemma str_int_plain: "CHR ''_'' \<notin> set (str_int i)"
  using digits_chars by (auto simp: str_int_def)

lemma str_int_inj: "str_int i = str_int j \<Longrightarrow> i = j"
proof -
  assume e: "str_int i = str_int j"
  have neg: False if "CHR ''-'' # digits a = digits b" for a b
  proof -
    have "CHR ''-'' \<in> set (digits b)" using that by (metis list.set_intros(1))
    then show False using digits_chars by blast
  qed
  consider "i < 0" "j < 0" | "i < 0" "\<not> j < 0" | "\<not> i < 0" "j < 0" | "\<not> i < 0" "\<not> j < 0" by blast
  then show ?thesis
  proof cases
    case 1
    then have "nat (- i) = nat (- j)" using e digits_inj by (simp add: str_int_def)
    then show ?thesis using 1 by simp
  next
    case 2
    then show ?thesis using e neg [of "nat (- i)" "nat j"] by (simp add: str_int_def)
  next
    case 3
    then show ?thesis using e neg [of "nat (- j)" "nat i"] by (simp add: str_int_def)
  next
    case 4
    then have "nat i = nat j" using e digits_inj by (simp add: str_int_def)
    then show ?thesis using 4 by simp
  qed
qed

lemma takeWhile_until: "x \<notin> set u \<Longrightarrow> takeWhile (\<lambda>c. c \<noteq> x) (u @ x # r) = u"
  by (induction u) auto

lemma cache_key_owner:
  assumes "CHR ''_'' \<notin> set u1" "CHR ''_'' \<notin> set u2" "cache_key u1 a s = cache_key u2 a' s'"
  shows "u1 = u2"
proof -
  have "takeWhile (\<lambda>c. c \<noteq> CHR ''_'') (cache_key u a s) = u" if "CHR ''_'' \<notin> set u" for u a s
    using that takeWhile_until [of "CHR ''_''" u] by (simp add: cache_key_def)
  then show ?thesis using assms by metis
qed

lemma cache_key_tenants: "i \<noteq> j \<Longrightarrow> cache_key (str_int i) a s \<noteq> cache_key (str_int j) a' s'"
  using cache_key_owner [OF str_int_plain str_int_plain] str_int_inj by blast

section \<open>Isolation of tenants\<close>

lemma same_view_refl [simp]: "same_view uid db db"
  by (simp add: same_view_def)

lemma same_view_trans: "same_view uid a b \<Longrightarrow> same_view uid b c \<Longrightarrow> same_view uid a c"
  by (simp add: same_view_def)

lemma same_view_save [simp]: "same_view uid db (save_data db')  = same_view uid db db'"
  by (simp add: same_view_def save_data_def)

lemma same_view_save2 [simp]: "same_view uid (save_data db) db'  = same_view uid db db'"
  by (simp add: same_view_def save_data_def)

lemma scan_transactions_foreign:
  assumes "scan_transactions now uid a ts (w, c) = (w', c')" and "\<forall>s. k \<noteq> cache_key uid a s"
  shows "dict_get (cache c') k = dict_get (cache c) k"
  using assms
proof (induction ts arbitrary: w c)
  case Nil
  then show ?case by simp
next
  case (Cons t ts)
  show ?case
  proof (cases "\<exists>s. signature t = Some s \<and> s \<noteq> [] \<and> \<not> dict_has (cache c) (cache_key uid a s)")
    case True
    then obtain s where s: "signature t = Some s" "s \<noteq> []" "\<not> dict_has (cache c) (cache_key uid a s)"
      by blast
    let ?c1 = "c\<lparr>cache := dict_set (cache_key uid a s) now (cache c), total := total c + 1,
                 new_alerts := new_alerts c @ [(t, name w, a)]\<rparr>"
    have "scan_transactions now uid a ts (w\<lparr>tx_count := tx_count w + 1, last_tx := Some now\<rparr>, ?c1) = (w', c')"
      using Cons.prems s by simp
    from Cons.IH [OF this Cons.prems(2)] show ?thesis using Cons.prems(2) by (simp add: dict_get_set)
  next
    case False
    then have "scan_transactions now uid a ts (w, c) = (w', c')"
      using Cons.prems by (auto split: option.splits if_splits)
    then show ?thesis using Cons.IH Cons.prems(2) by blast
  qed
qed

lemma scan_wallets_foreign:
  assumes "scan_wallets now src uid ws c = (ws', c', out)" and "\<forall>a s. k \<noteq> cache_key uid a s"
  shows "dict_get (cache c') k = dict_get (cache c) k"
  using assms
proof (induction ws arbitrary: c ws' c' out)
  case Nil
  then show ?case by simp
next
  case (Cons p ws)
  obtain a w where p: "p = (a, w)" by (cases p)
  obtain ts pr where f: "fetch_transactions src a = (ts, pr)" by (cases "fetch_transactions src a")
  obtain w1 c1 where s: "scan_transactions now uid a ts (w, c) = (w1, c1)"
    by (cases "scan_transactions now uid a ts (w, c)")
  obtain r c2 o2 where r: "scan_wallets now src uid ws c1 = (r, c2, o2)"
    by (cases "scan_wallets now src uid ws c1")
  have "c' = c2" using Cons.prems p f s r by simp
  then show ?case
    using scan_transactions_foreign [OF s] Cons.IH [OF r] Cons.prems(2) by simp
qed

lemma scan_transactions_agree:
  assumes "agree uid c d" and "scan_transactions now uid a ts (w, c) = (w1, c1)"
    and "scan_transactions now uid a ts (w, d) = (w2, d1)"
  shows "w2 = w1 \<and> agree uid c1 d1"
  using assms
proof (induction ts arbitrary: w c d)
  case Nil
  then show ?case by simp
next
  case (Cons t ts)
  have h: "dict_has (cache d) (cache_key uid a s) = dict_has (cache c) (cache_key uid a s)" for s
    using Cons.prems(1) by (simp add: agree_def dict_has_get)
  show ?case
  proof (cases "\<exists>s. signature t = Some s \<and> s \<noteq> [] \<and> \<not> dict_has (cache c) (cache_key uid a s)")
    case True
    then obtain s where s: "signature t = Some s" "s \<noteq> []" "\<not> dict_has (cache c) (cache_key uid a s)"
      by blast
    let ?w = "w\<lparr>tx_count := tx_count w + 1, last_tx := Some now\<rparr>"
    let ?c1 = "c\<lparr>cache := dict_set (cache_key uid a s) now (cache c), total := total c + 1,
                 new_alerts := new_alerts c @ [(t, name w, a)]\<rparr>"
    let ?d1 = "d\<lparr>cache := dict_set (cache_key uid a s) now (cache d), total := total d + 1,
                 new_alerts := new_alerts d @ [(t, name w, a)]\<rparr>"
    have a: "agree uid ?c1 ?d1" using Cons.prems(1) by (simp add: agree_def dict_get_set)
    have "scan_transactions now uid a ts (?w, ?c1) = (w1, c1)" using Cons.prems(2) s by simp
    moreover have "scan_transactions now uid a ts (?w, ?d1) = (w2, d1)" using Cons.prems(3) s h by simp
    ultimately show ?thesis using Cons.IH [OF a] by blast
  next
    case False
    then have "scan_transactions now uid a ts (w, c) = (w1, c1)"
      using Cons.prems(2) by (auto split: option.splits if_splits)
    moreover have "scan_transactions now uid a ts (w, d) = (w2, d1)"
      using Cons.prems(3) False h by (auto split: option.splits if_splits)
    ultimately show ?thesis using Cons.IH [OF Cons.prems(1)] by blast
  qed
qed

lemma scan_wallets_agree:
  assumes "agree uid c d" and "scan_wallets now src uid ws c = (ws1, c1, o1)"
    and "scan_wallets now src uid ws d = (ws2, d1, o2)"
  shows "ws2 = ws1 \<and> o2 = o1 \<and> agree uid c1 d1"
  using assms
proof (induction ws arbitrary: c d ws1 c1 o1 ws2 d1 o2)
  case Nil
  then show ?case by simp
next
  case (Cons p ws)
  obtain a w where p: "p = (a, w)" by (cases p)
  obtain ts pr where f: "fetch_transactions src a = (ts, pr)" by (cases "fetch_transactions src a")
  obtain wc cc where sc: "scan_transactions now uid a ts (w, c) = (wc, cc)"
    by (cases "scan_transactions now uid a ts (w, c)")
  obtain wd cd where sd: "scan_transactions now uid a ts (w, d) = (wd, cd)"
    by (cases "scan_transactions now uid a ts (w, d)")
  obtain rc c2 oc where rc: "scan_wallets now src uid ws cc = (rc, c2, oc)"
    by (cases "scan_wallets now src uid ws cc")
  obtain rd d2 od where rd: "scan_wallets now src uid ws cd = (rd, d2, od)"
    by (cases "scan_wallets now src uid ws cd")
  from scan_transactions_agree [OF Cons.prems(1) sc sd] have e: "wd = wc" "agree uid cc cd" by simp_all
  from Cons.IH [OF e(2) rc rd] have "rd = rc" "od = oc" "agree uid c2 d2" by simp_all
  moreover have "ws1 = (a, wc) # rc" "c1 = c2" "o1 = pr @ oc" using Cons.prems(2) p f sc rc by simp_all
  moreover have "ws2 = (a, wd) # rd" "d1 = d2" "o2 = pr @ od" using Cons.prems(3) p f sd rd by simp_all
  ultimately show ?case using e(1) by simp
qed

lemma plain_str_int [simp]: "plain (str_int i)"
  by (simp add: plain_def str_int_plain)

lemma foreign_keys:
  "plain u1 \<Longrightarrow> plain u2 \<Longrightarrow> u1 \<noteq> u2 \<Longrightarrow> cache_key u2 a' s' \<noteq> cache_key u1 a s"
  using cache_key_owner [of u2 u1] by (auto simp: plain_def)

lemma get_user_view: "k \<noteq> str_int i \<Longrightarrow> same_view k db (fst (get_user now db i))"
  by (auto simp: get_user_def Let_def same_view_def save_data_def dict_get_set split: option.splits)

lemma set_wallets_view: "k \<noteq> uid \<Longrightarrow> same_view k db (set_wallets db uid u ws)"
  by (simp add: same_view_def set_wallets_def dict_get_set)

lemma add_wallet_view:
  assumes "k \<noteq> str_int i"
  shows "same_view k db (fst (add_wallet now db i a n))"
proof -
  obtain db1 u where g: "get_user now db i = (db1, u)" by (cases "get_user now db i")
  have v: "same_view k db db1" using get_user_view [OF assms, of db now] g by simp
  have "same_view k db1 (fst (add_wallet now db i a n))"
    using g assms by (simp add: add_wallet_def set_wallets_view)
  with v show ?thesis by (rule same_view_trans)
qed

lemma remove_wallet_view:
  assumes "k \<noteq> str_int i"
  shows "same_view k db (fst (remove_wallet py now db i x))"
proof -
  obtain db1 u where g: "get_user now db i = (db1, u)" by (cases "get_user now db i")
  have v: "same_view k db db1" using get_user_view [OF assms, of db now] g by simp
  have "same_view k db1 (fst (remove_wallet py now db i x))"
    using g assms by (auto simp: remove_wallet_def set_wallets_view split: option.splits)
  with v show ?thesis by (rule same_view_trans)
qed

lemma store_cycle_view:
  assumes "scan_wallets now src uid (wallets u) (start_cycle db u) = (ws, c, out)"
    and "plain uid" "plain k" "k \<noteq> uid"
  shows "same_view k db (store_cycle db uid u ws c)"
proof -
  have "dict_get (cache c) (cache_key k a s) = dict_get (tx_cache db) (cache_key k a s)" for a s
    using scan_wallets_foreign [OF assms(1), of "cache_key k a s"] foreign_keys [OF assms(2,3)] assms(4)
    by (auto simp: start_cycle_def)
  then show ?thesis using assms(4) by (simp add: same_view_def store_cycle_def dict_get_set)
qed

lemma check_command_view:
  assumes "i \<noteq> j"
  shows "same_view (str_int j) db (fst (snd (check_command py now src db i)))"
proof -
  have n: "str_int j \<noteq> str_int i" using assms str_int_inj by blast
  obtain db1 u where g: "get_user now db i = (db1, u)" by (cases "get_user now db i")
  have v: "same_view (str_int j) db db1" using get_user_view [OF n, of db now] g by simp
  obtain ws c out where s: "scan_wallets now src (str_int i) (wallets u) (start_cycle db1 u) = (ws, c, out)"
    by (cases "scan_wallets now src (str_int i) (wallets u) (start_cycle db1 u)")
  have "same_view (str_int j) db1 (store_cycle db1 (str_int i) u ws c)"
    using s n by (intro store_cycle_view) simp_all
  then have "same_view (str_int j) db1 (fst (snd (check_command py now src db i)))"
    using g s by (simp add: check_command_def Let_def split: prod.splits)
  with v show ?thesis by (rule same_view_trans)
qed

lemma send_alerts_shape:
  "\<exists>r ev. \<forall>db. send_alerts py send uid chat als db =
      (r, if r = Deleted then save_data (db\<lparr>users := dict_del uid (users db)\<rparr>) else db, ev)"
proof (induction als)
  case Nil
  show ?case by (rule exI [of _ Finished]) simp
next
  case (Cons a als)
  obtain t nm addr where a: "a = (t, nm, addr)" by (cases a)
  from Cons obtain g e where r: "\<And>db. send_alerts py send uid chat als db =
      (g, if g = Deleted then save_data (db\<lparr>users := dict_del uid (users db)\<rparr>) else db, e)" by blast
  show ?case
  proof (cases "format_alert py t nm addr")
    case (Inl x)
    have "\<forall>db. send_alerts py send uid chat (a # als) db =
        (Error x, if Error x = Deleted then save_data (db\<lparr>users := dict_del uid (users db)\<rparr>) else db, [])"
      using a Inl by simp
    then show ?thesis by blast
  next
    case (Inr msg)
    show ?thesis
    proof (cases "send chat msg")
      case None
      have "\<forall>db. send_alerts py send uid chat (a # als) db =
          (g, if g = Deleted then save_data (db\<lparr>users := dict_del uid (users db)\<rparr>) else db,
           Send chat msg None # Sleep 1 # e)"
        using a Inr None r by simp
      then show ?thesis by blast
    next
      case (Some x)
      show ?thesis
      proof (cases "unreachable py x")
        case True
        have "\<forall>db. send_alerts py send uid chat (a # als) db =
            (Deleted, if Deleted = Deleted then save_data (db\<lparr>users := dict_del uid (users db)\<rparr>) else db,
             [Send chat msg (Some x), Print (UserBlocked chat)])"
          using a Inr Some True by simp
        then show ?thesis by blast
      next
        case False
        have "\<forall>db. send_alerts py send uid chat (a # als) db =
            (g, if g = Deleted then save_data (db\<lparr>users := dict_del uid (users db)\<rparr>) else db,
             Send chat msg (Some x) # e)"
          using a Inr Some False r by simp
        then show ?thesis by blast
      qed
    qed
  qed
qed

lemma delete_view: "k \<noteq> uid \<Longrightarrow> same_view k db (db\<lparr>users := dict_del uid (users db)\<rparr>)"
  by (simp add: same_view_def dict_get_del)

lemma send_alerts_view: "k \<noteq> uid \<Longrightarrow> same_view k db (fst (snd (send_alerts py send uid chat als db)))"
  using send_alerts_shape [of py send uid chat als] by (auto simp: delete_view)

lemma monitor_user_view:
  assumes "plain uid" "plain k" "k \<noteq> uid"
  shows "same_view k db (fst (snd (monitor_user py now src send (uid, u) db)))"
proof (cases "int_of py uid")
  case None
  then show ?thesis by (simp add: monitor_user_def)
next
  case (Some user_id)
  obtain ws c out where s: "scan_wallets now src uid (wallets u) (start_cycle db u) = (ws, c, out)"
    by (cases "scan_wallets now src uid (wallets u) (start_cycle db u)")
  have v: "same_view k db (store_cycle db uid u ws c)" using s assms by (rule store_cycle_view)
  show ?thesis
  proof (cases "new_alerts c = []")
    case True
    then show ?thesis using monitor_user_quiet [OF Some s True, of send] v by simp
  next
    case False
    obtain r d1 e1 where r:
      "send_alerts py send uid user_id (take 3 (new_alerts c)) (save_data (store_cycle db uid u ws c)) = (r, d1, e1)"
      by (cases "send_alerts py send uid user_id (take 3 (new_alerts c)) (save_data (store_cycle db uid u ws c))")
    have "same_view k (save_data (store_cycle db uid u ws c)) d1"
      using send_alerts_view [OF assms(3), of "save_data (store_cycle db uid u ws c)" py send user_id
          "take 3 (new_alerts c)"] r by simp
    then have "same_view k (store_cycle db uid u ws c) (fst (snd (monitor_user py now src send (uid, u) db)))"
      using monitor_user_sends [OF Some s False r] by simp
    with v show ?thesis by (rule same_view_trans)
  qed
qed

lemma same_view_sym: "same_view uid a b \<Longrightarrow> same_view uid b a"
  by (simp add: same_view_def)

lemma get_user_reads_view:
  assumes "same_view (str_int j) db db'"
  shows "snd (get_user now db' j) = snd (get_user now db j) \<and>
         same_view (str_int j) (fst (get_user now db j)) (fst (get_user now db' j))"
proof (cases "dict_get (users db) (str_int j)")
  case None
  then have "dict_get (users db') (str_int j) = None" using assms by (simp add: same_view_def)
  then show ?thesis using None assms
    by (simp add: get_user_def Let_def same_view_def dict_get_set save_data_def)
next
  case (Some u)
  then have "dict_get (users db') (str_int j) = Some u" using assms by (simp add: same_view_def)
  then show ?thesis using Some assms by (simp add: get_user_def)
qed

lemma start_cycle_agree: "same_view uid db db' \<Longrightarrow> agree uid (start_cycle db u) (start_cycle db' u)"
  by (simp add: same_view_def agree_def start_cycle_def)

lemma store_cycle_agree:
  "agree uid c d \<Longrightarrow> same_view uid (store_cycle db uid u ws c) (store_cycle db' uid u ws d)"
  by (simp add: same_view_def agree_def store_cycle_def dict_get_set)

lemma check_command_reads_view:
  assumes "same_view (str_int j) db db'"
  shows "fst (check_command py now src db' j) = fst (check_command py now src db j) \<and>
         snd (snd (check_command py now src db' j)) = snd (snd (check_command py now src db j)) \<and>
         same_view (str_int j) (fst (snd (check_command py now src db j)))
           (fst (snd (check_command py now src db' j)))"
proof -
  obtain dbg u where g: "get_user now db j = (dbg, u)" by (cases "get_user now db j")
  obtain dbg' u' where g': "get_user now db' j = (dbg', u')" by (cases "get_user now db' j")
  from get_user_reads_view [OF assms, of now] g g'
  have u: "u' = u" and v: "same_view (str_int j) dbg dbg'" by simp_all
  show ?thesis
  proof (cases "wallets u = []")
    case True
    then show ?thesis using g g' u v by (simp add: check_command_def)
  next
    case False
    obtain ws c out where s: "scan_wallets now src (str_int j) (wallets u) (start_cycle dbg u) = (ws, c, out)"
      by (cases "scan_wallets now src (str_int j) (wallets u) (start_cycle dbg u)")
    obtain ws' d out' where s': "scan_wallets now src (str_int j) (wallets u) (start_cycle dbg' u) = (ws', d, out')"
      by (cases "scan_wallets now src (str_int j) (wallets u) (start_cycle dbg' u)")
    from scan_wallets_agree [OF start_cycle_agree [OF v] s s']
    have e: "ws' = ws" "out' = out" "agree (str_int j) c d" by simp_all
    then have n: "new_alerts d = new_alerts c" by (simp add: agree_def)
    have w: "same_view (str_int j) (store_cycle dbg (str_int j) u ws c) (store_cycle dbg' (str_int j) u ws d)"
      using e(3) by (rule store_cycle_agree)
    obtain x ev where c: "check_replies py (new_alerts c) = (x, ev)"
      by (cases "check_replies py (new_alerts c)")
    show ?thesis
      using False g g' u s s' e n w c by (cases "new_alerts c = []") (simp_all add: check_command_def)
  qed
qed

lemma same_view_delete:
  "same_view uid (db\<lparr>users := dict_del uid (users db)\<rparr>) (db'\<lparr>users := dict_del uid (users db')\<rparr>) =
     (\<forall>address tx_id. dict_get (tx_cache db') (cache_key uid address tx_id) =
                       dict_get (tx_cache db) (cache_key uid address tx_id))"
  by (simp add: same_view_def dict_get_del)

lemma send_alerts_reads_view:
  assumes "same_view uid db db'"
  shows "fst (send_alerts py send uid chat als db') = fst (send_alerts py send uid chat als db) \<and>
         snd (snd (send_alerts py send uid chat als db')) = snd (snd (send_alerts py send uid chat als db)) \<and>
         same_view uid (fst (snd (send_alerts py send uid chat als db)))
           (fst (snd (send_alerts py send uid chat als db')))"
proof -
  obtain r ev where r: "\<And>db. send_alerts py send uid chat als db =
      (r, if r = Deleted then save_data (db\<lparr>users := dict_del uid (users db)\<rparr>) else db, ev)"
    using send_alerts_shape [of py send uid chat als] by blast
  have "same_view uid (db\<lparr>users := dict_del uid (users db)\<rparr>) (db'\<lparr>users := dict_del uid (users db')\<rparr>)"
    using assms unfolding same_view_delete by (simp add: same_view_def)
  then show ?thesis using assms by (simp add: r)
qed

lemma monitor_user_reads_view:
  assumes "same_view uid db db'"
  shows "fst (monitor_user py now src send (uid, u) db') = fst (monitor_user py now src send (uid, u) db) \<and>
         snd (snd (monitor_user py now src send (uid, u) db')) =
           snd (snd (monitor_user py now src send (uid, u) db)) \<and>
         same_view uid (fst (snd (monitor_user py now src send (uid, u) db)))
           (fst (snd (monitor_user py now src send (uid, u) db')))"
proof (cases "int_of py uid")
  case None
  then show ?thesis using assms by (simp add: monitor_user_def)
next
  case (Some user_id)
  obtain ws c out where s: "scan_wallets now src uid (wallets u) (start_cycle db u) = (ws, c, out)"
    by (cases "scan_wallets now src uid (wallets u) (start_cycle db u)")
  obtain ws' d out' where s': "scan_wallets now src uid (wallets u) (start_cycle db' u) = (ws', d, out')"
    by (cases "scan_wallets now src uid (wallets u) (start_cycle db' u)")
  from scan_wallets_agree [OF start_cycle_agree [OF assms] s s']
  have e: "ws' = ws" "out' = out" "agree uid c d" by simp_all
  then have n: "new_alerts d = new_alerts c" by (simp add: agree_def)
  have w: "same_view uid (save_data (store_cycle db uid u ws c)) (save_data (store_cycle db' uid u ws d))"
    using store_cycle_agree [OF e(3)] by simp
  show ?thesis
  proof (cases "new_alerts c = []")
    case True
    then show ?thesis
      using monitor_user_quiet [OF Some s True, of send] monitor_user_quiet [OF Some s', of send] e n w
      by simp
  next
    case False
    obtain r1 d1 e1 where r:
      "send_alerts py send uid user_id (take 3 (new_alerts c)) (save_data (store_cycle db uid u ws c)) = (r1, d1, e1)"
      by (cases "send_alerts py send uid user_id (take 3 (new_alerts c)) (save_data (store_cycle db uid u ws c))")
    obtain r2 d2 e2 where r':
      "send_alerts py send uid user_id (take 3 (new_alerts d)) (save_data (store_cycle db' uid u ws' d)) = (r2, d2, e2)"
      by (cases "send_alerts py send uid user_id (take 3 (new_alerts d)) (save_data (store_cycle db' uid u ws' d))")
    from send_alerts_reads_view [OF w, of py send user_id "take 3 (new_alerts c)"] r r' e n
    have q: "r2 = r1" "e2 = e1" "same_view uid d1 d2" by simp_all
    have f: "new_alerts d \<noteq> []" using False n by simp
    show ?thesis
      using monitor_user_sends [OF Some s False r] monitor_user_sends [OF Some s' f r'] q e by simp
  qed
qed

text \<open>
  Claim C6. For two distinct tenants \<open>i\<close> and \<open>j\<close>: adding and removing a wallet of \<open>i\<close>, a
  manual check of \<open>i\<close> and a scheduled step of \<open>i\<close> (polling, and deletion when \<open>i\<close> has
  blocked the bot) leave the entry of \<open>j\<close> (its wallets and counters) and every cache
  entry under a key of \<open>j\<close> as they were, also when both track the same address: the
  keys differ in the tenant id. And what a manual check or a scheduled step of \<open>j\<close> sends,
  and what it leaves for \<open>j\<close>, depends on nothing but the entry and the cache entries of
  \<open>j\<close>, so nothing that \<open>i\<close> did suppresses or creates a notification for \<open>j\<close>.
\<close>

theorem tenants_isolated:
  assumes "i \<noteq> j"
  shows "same_view (str_int j) db (fst (add_wallet now db i address nm)) \<and>
         same_view (str_int j) db (fst (remove_wallet py now db i identifier)) \<and>
         same_view (str_int j) db (fst (snd (check_command py now src db i))) \<and>
         same_view (str_int j) db (fst (snd (monitor_user py now src send (str_int i, u) db))) \<and>
         (same_view (str_int j) db db' \<longrightarrow>
            fst (check_command py now src db' j) = fst (check_command py now src db j) \<and>
            snd (snd (check_command py now src db' j)) = snd (snd (check_command py now src db j)) \<and>
            same_view (str_int j) (fst (snd (check_command py now src db j)))
              (fst (snd (check_command py now src db' j))) \<and>
            snd (snd (monitor_user py now src send (str_int j, v) db')) =
              snd (snd (monitor_user py now src send (str_int j, v) db)) \<and>
            same_view (str_int j) (fst (snd (monitor_user py now src send (str_int j, v) db)))
              (fst (snd (monitor_user py now src send (str_int j, v) db'))))"
proof -
  have n: "str_int j \<noteq> str_int i" using assms str_int_inj by blast
  show ?thesis
    using add_wallet_view [OF n] remove_wallet_view [OF n] check_command_view [OF assms]
      monitor_user_view [of "str_int i" "str_int j"] n
      check_command_reads_view [of j db db' py now src]
      monitor_user_reads_view [of "str_int j" db db' py now src send v]
    by simp
qed

theorem tenants_isolated_witness:
  "(1::int) \<noteq> 2 \<and>
   dict_has (wallets_of two_tenants 1) ''A'' \<and> dict_has (wallets_of two_tenants 2) ''A'' \<and>
   dict_has (tx_cache after_check_1) (cache_key (str_int 1) ''A'' ''s1'') \<and>
   same_view (str_int 2) two_tenants after_check_1 \<and>
   snd (snd (check_command ascii ''t2'' busy_source after_check_1 2)) =
     snd (snd (check_command ascii ''t2'' busy_source two_tenants 2)) \<and>
   list_ex notifies (snd (snd (check_command ascii ''t2'' busy_source after_check_1 2))) \<and>
   same_view (str_int 2) (fst (snd (check_command ascii ''t2'' busy_source two_tenants 2)))
     (fst (snd (check_command ascii ''t2'' busy_source after_check_1 2)))"
proof -
  have a: "(1::int) \<noteq> 2" by simp
  have b: "dict_has (wallets_of two_tenants 1) ''A''" "dict_has (wallets_of two_tenants 2) ''A''"
    "dict_has (tx_cache after_check_1) (cache_key (str_int 1) ''A'' ''s1'')"
    "list_ex notifies (snd (snd (check_command ascii ''t2'' busy_source after_check_1 2)))"
    by code_simp+
  have c: "same_view (str_int 2) two_tenants after_check_1"
    using tenants_isolated [OF a, where db = two_tenants and now = "''t1''" and src = busy_source
        and py = ascii]
    by (simp add: after_check_1_def)
  show ?thesis
    using a b c
      tenants_isolated [OF a, where db = two_tenants and db' = after_check_1 and now = "''t2''"
        and src = busy_source and py = ascii]
    by simp
qed

end
